theory Spec2Isabelle
  imports Main "HOL-Library.Word"
begin

section \<open>Strings and JavaScript values\<close>

text \<open>
  A JavaScript string is a sequence of UTF-16 code units, and every operation of the diff
  engine (regular expressions without the \<open>u\<close> flag, indexing, \<open>===\<close>) works on code
  units. A string is therefore a list of 16-bit words. A value that may be \<open>undefined\<close>
  (an array read out of range) is an \<open>option\<close>, with \<open>None\<close> for \<open>undefined\<close>.
\<close>

type_synonym jstring = "16 word list"

definition str :: "string \<Rightarrow> jstring" where
  "str s = map of_char s"

definition nth_opt :: "'a list \<Rightarrow> nat \<Rightarrow> 'a option" where
  \<comment> \<open>\<open>xs[i]\<close> for a non-negative index: \<open>undefined\<close> past the end\<close>
  "nth_opt xs i = (if i < length xs then Some (xs ! i) else None)"

definition lookup :: "'a list \<Rightarrow> int \<Rightarrow> 'a option" where
  \<comment> \<open>\<open>xs[i]\<close> for any integer index: \<open>undefined\<close> outside \<open>0 .. length - 1\<close>\<close>
  "lookup xs i = (if 0 \<le> i \<and> i < int (length xs) then Some (xs ! nat i) else None)"

text \<open>The character classes \<open>\w\<close> and \<open>\s\<close> of JavaScript regular expressions.\<close>

definition is_word_char :: "16 word \<Rightarrow> bool" where
  "is_word_char c \<longleftrightarrow>
     (0x41 \<le> c \<and> c \<le> 0x5A) \<or> (0x61 \<le> c \<and> c \<le> 0x7A) \<or> (0x30 \<le> c \<and> c \<le> 0x39) \<or> c = 0x5F"

definition is_space_char :: "16 word \<Rightarrow> bool" where
  "is_space_char c \<longleftrightarrow>
     (0x09 \<le> c \<and> c \<le> 0x0D) \<or> c = 0x20 \<or> c = 0xA0 \<or> c = 0x1680 \<or>
     (0x2000 \<le> c \<and> c \<le> 0x200A) \<or> c = 0x2028 \<or> c = 0x2029 \<or> c = 0x202F \<or>
     c = 0x205F \<or> c = 0x3000 \<or> c = 0xFEFF"

section \<open>HTML escaping\<close>

text \<open>
  \<^verbatim>\<open>const ESC = { '&': '&amp;', '<': '&lt;', '>': '&gt;', '"': '&quot;', "'": '&#39;' };\<close>
  The table is a finite map from a code unit to its entity.
\<close>

definition ESC :: "16 word \<Rightarrow> jstring option" where
  "ESC c =
     (if c = 0x26 then Some (str ''&amp;'')
      else if c = 0x3C then Some (str ''&lt;'')
      else if c = 0x3E then Some (str ''&gt;'')
      else if c = 0x22 then Some (str ''&quot;'')
      else if c = 0x27 then Some (str ''&#39;'')
      else None)"

definition esc_class :: "16 word \<Rightarrow> bool" where
  \<comment> \<open>the character class \<open>[&<>"']\<close>\<close>
  "esc_class c \<longleftrightarrow> c = 0x26 \<or> c = 0x3C \<or> c = 0x3E \<or> c = 0x22 \<or> c = 0x27"

definition escape_str :: "jstring \<Rightarrow> jstring" where
  \<comment> \<open>\<open>str.replace(/[&<>"']/g, c => ESC[c])\<close>; a missing table entry would print as
      \<open>undefined\<close>\<close>
  "escape_str s =
     concat (map (\<lambda>c. if esc_class c
                        then (case ESC c of Some e \<Rightarrow> e | None \<Rightarrow> str ''undefined'')
                        else [c]) s)"

definition escape :: "jstring option \<Rightarrow> jstring" where
  \<comment> \<open>\<open>if (typeof str !== 'string') return ''\<close>\<close>
  "escape v = (case v of None \<Rightarrow> [] | Some s \<Rightarrow> escape_str s)"

section \<open>Word-level diff\<close>

subsection \<open>Tokenizer\<close>

text \<open>
  \<^verbatim>\<open>line.match(/\w+|\s+|[^\w\s]/g) || []\<close>: the global match scans from the left; at
  each position the first alternative that matches is taken, greedily. Every code unit is
  a word character, a whitespace character or neither, so some alternative always matches
  at the current position and no code unit is skipped.
\<close>

function tokenizeWords :: "jstring \<Rightarrow> jstring list" where
  "tokenizeWords [] = []"
| "tokenizeWords (c # cs) =
     (if is_word_char c then
        (c # takeWhile is_word_char cs) # tokenizeWords (dropWhile is_word_char cs)
      else if is_space_char c then
        (c # takeWhile is_space_char cs) # tokenizeWords (dropWhile is_space_char cs)
      else [c] # tokenizeWords cs)"
  by pat_completeness auto
termination
  by (relation "measure length") (auto simp: length_dropWhile_le less_Suc_eq_le)

subsection \<open>Longest common subsequence of two token lists\<close>

definition int16 :: "int \<Rightarrow> int" where
  \<comment> \<open>the value read back after a store into an \<open>Int16Array\<close>\<close>
  "int16 v = (v + 32768) mod 65536 - 32768"

definition dp_cell :: "'a list \<Rightarrow> 'a list \<Rightarrow> nat \<Rightarrow> nat \<Rightarrow> int list list \<Rightarrow> int list list" where
  \<comment> \<open>one assignment \<open>dp[i][j] = ...\<close> of the table fill\<close>
  "dp_cell a b i j dp =
     dp[i := (dp ! i)[j := int16
        (if a ! (i - 1) = b ! (j - 1) then dp ! (i - 1) ! (j - 1) + 1
         else max (dp ! (i - 1) ! j) (dp ! i ! (j - 1)))]]"

definition dp_fill :: "'a list \<Rightarrow> 'a list \<Rightarrow> int list list" where
  \<comment> \<open>the two nested \<open>for\<close> loops over \<open>i = 1..n\<close>, \<open>j = 1..m\<close>\<close>
  "dp_fill a b =
     fold (\<lambda>i dp. fold (\<lambda>j dp'. dp_cell a b i j dp') [1 ..< length b + 1] dp)
       [1 ..< length a + 1]
       (replicate (length a + 1) (replicate (length b + 1) 0))"

function lcs_back :: "'a list \<Rightarrow> 'a list \<Rightarrow> int list list \<Rightarrow> nat \<Rightarrow> nat \<Rightarrow> 'a list \<Rightarrow> 'a list" where
  "lcs_back a b dp i j result =
     (if i > 0 \<and> j > 0 then
        (if a ! (i - 1) = b ! (j - 1) then lcs_back a b dp (i - 1) (j - 1) (a ! (i - 1) # result)
         else if dp ! (i - 1) ! j > dp ! i ! (j - 1) then lcs_back a b dp (i - 1) j result
         else lcs_back a b dp i (j - 1) result)
      else result)"
  by pat_completeness auto
termination
  by (relation "measure (\<lambda>(a, b, dp, i, j, result). i + j)") auto

definition computeLCS :: "'a list \<Rightarrow> 'a list \<Rightarrow> 'a list" where
  "computeLCS a b =
     (let n = length a; m = length b in
      if n = 0 \<or> m = 0 then []
      else if n * m > 100000 then []
      else lcs_back a b (dp_fill a b) n m [])"

subsection \<open>The lock-step walk\<close>

definition word_added :: "jstring \<Rightarrow> jstring" where
  "word_added e = str ''<span class=\"word-added\">'' @ e @ str ''</span>''"

definition word_removed :: "jstring \<Rightarrow> jstring" where
  "word_removed e = str ''<span class=\"word-removed\">'' @ e @ str ''</span>''"

record word_result =
  leftHtml :: jstring
  rightHtml :: jstring

text \<open>
  The state of the \<open>while\<close> loop is \<open>(ai, bi, li, leftHtml, rightHtml)\<close>. \<open>wd_step\<close> is one
  execution of the loop body. \<open>tokA.slice(ai).includes(lcs[li])\<close> compares with
  \<open>undefined\<close> when \<open>li\<close> is past the end of \<open>lcs\<close>, which no token equals.
\<close>

type_synonym wd_state = "nat \<times> nat \<times> nat \<times> jstring \<times> jstring"

definition wd_step :: "jstring list \<Rightarrow> jstring list \<Rightarrow> jstring list \<Rightarrow> wd_state \<Rightarrow> wd_state" where
  "wd_step tokA tokB lcs s =
     (case s of (ai, bi, li, lh, rh) \<Rightarrow>
        if ai < length tokA \<and> bi < length tokB \<and> li < length lcs \<and>
           nth_opt tokA ai = nth_opt lcs li \<and> nth_opt tokB bi = nth_opt lcs li
        then (ai + 1, bi + 1, li + 1, lh @ escape (nth_opt tokA ai), rh @ escape (nth_opt tokB bi))
        else if bi < length tokB \<and>
                (ai \<ge> length tokA \<or> nth_opt lcs li \<notin> Some ` set (drop ai tokA))
        then (ai, bi + 1, li, lh, rh @ word_added (escape (nth_opt tokB bi)))
        else (ai + 1, bi, li, lh @ word_removed (escape (nth_opt tokA ai)), rh))"

definition wd_cond :: "jstring list \<Rightarrow> jstring list \<Rightarrow> wd_state \<Rightarrow> bool" where
  "wd_cond tokA tokB s = (case s of (ai, bi, li, lh, rh) \<Rightarrow> ai < length tokA \<or> bi < length tokB)"

partial_function (option) wd_loop ::
  "jstring list \<Rightarrow> jstring list \<Rightarrow> jstring list \<Rightarrow> wd_state \<Rightarrow> wd_state option" where
  "wd_loop tokA tokB lcs s =
     (if wd_cond tokA tokB s then wd_loop tokA tokB lcs (wd_step tokA tokB lcs s) else Some s)"

definition wordDiff :: "jstring \<Rightarrow> jstring \<Rightarrow> word_result option" where
  \<comment> \<open>\<open>None\<close>: the walk does not return\<close>
  "wordDiff lineA lineB =
     (let tokA = tokenizeWords lineA; tokB = tokenizeWords lineB;
          lcs = computeLCS tokA tokB
      in case wd_loop tokA tokB lcs (0, 0, 0, [], []) of
           None \<Rightarrow> None
         | Some (ai, bi, li, lh, rh) \<Rightarrow> Some \<lparr>leftHtml = lh, rightHtml = rh\<rparr>)"

section \<open>Line-level diff\<close>

subsection \<open>Normalisation for comparison\<close>

function collapse_ws :: "jstring \<Rightarrow> jstring" where
  \<comment> \<open>\<open>line.replace(/\s+/g, ' ')\<close>: each maximal whitespace run becomes one space\<close>
  "collapse_ws [] = []"
| "collapse_ws (c # cs) =
     (if is_space_char c then 0x20 # collapse_ws (dropWhile is_space_char cs)
      else c # collapse_ws cs)"
  by pat_completeness auto
termination
  by (relation "measure length") (auto simp: length_dropWhile_le less_Suc_eq_le)

definition trim :: "jstring \<Rightarrow> jstring" where
  "trim s = rev (dropWhile is_space_char (rev (dropWhile is_space_char s)))"

definition normalizeForCompare :: "jstring \<Rightarrow> bool \<Rightarrow> jstring" where
  "normalizeForCompare line ignoreWhitespace =
     (if ignoreWhitespace then trim (collapse_ws line) else line)"

subsection \<open>Edits and hunks\<close>

datatype edit_type = TEqual | TDelete | TInsert

record edit =
  etype :: edit_type
  li :: int
  ri :: int

datatype hunk_type = HEqual | HChanged | HRemoved | HAdded

record hunk =
  htype :: hunk_type
  lLines :: "jstring option list"
  rLines :: "jstring option list"
  lStart :: int
  rStart :: int

subsection \<open>Forward pass: shortest-edit-script search\<close>

text \<open>
  \<open>V\<close> is the \<open>Int32Array\<close> of length \<open>2 * max + 1\<close>, a list of integers here; the
  stored values are line positions, far below \<open>2^31\<close> for any input whose arrays fit in
  memory. Every read of \<open>V\<close> that the code performs is in range: \<open>idx - 1\<close> is read only
  when \<open>k \<noteq> -d\<close> and \<open>idx + 1\<close> only when \<open>k \<noteq> d\<close> or \<open>k = -d\<close>.
\<close>

function snake :: "'a list \<Rightarrow> 'a list \<Rightarrow> int \<Rightarrow> int \<Rightarrow> int \<times> int" where
  \<comment> \<open>\<open>while (x < n && y < m && a[x] === b[y]) { x++; y++; }\<close>\<close>
  "snake a b x y =
     (if x < int (length a) \<and> y < int (length b) \<and> lookup a x = lookup b y
      then snake a b (x + 1) (y + 1) else (x, y))"
  by pat_completeness auto
termination
  by (relation "measure (\<lambda>(a, b, x, y). nat (int (length a) - x))") auto

function kloop :: "'a list \<Rightarrow> 'a list \<Rightarrow> int \<Rightarrow> int \<Rightarrow> int list \<Rightarrow> int list \<times> bool" where
  \<comment> \<open>the loop \<open>for (k = -d; k <= d; k += 2)\<close> from its current \<open>k\<close>; the flag tells
      whether \<open>break outer\<close> was taken\<close>
  "kloop a b d k V =
     (if k \<le> d then
        (let n = int (length a); m = int (length b); mx = n + m; idx = k + mx;
             x0 = (if k = - d \<or> (k \<noteq> d \<and> V ! nat (idx - 1) < V ! nat (idx + 1))
                   then V ! nat (idx + 1) else V ! nat (idx - 1) + 1);
             xy = snake a b x0 (x0 - k);
             V' = V[nat idx := fst xy]
         in if fst xy \<ge> n \<and> snd xy \<ge> m then (V', True) else kloop a b d (k + 2) V')
      else (V, False))"
  by pat_completeness auto
termination
  by (relation "measure (\<lambda>(a, b, d, k, V). nat (d - k + 1))") auto

function dloop :: "'a list \<Rightarrow> 'a list \<Rightarrow> int \<Rightarrow> int list \<Rightarrow> int list list \<Rightarrow> int list list" where
  \<comment> \<open>the loop \<open>for (d = 0; d <= max; d++)\<close> from its current \<open>d\<close>; returns \<open>trace\<close>\<close>
  "dloop a b d V trace =
     (if d \<le> int (length a) + int (length b) then
        (let trace' = trace @ [V]; r = kloop a b d (- d) V
         in if snd r then trace' else dloop a b (d + 1) (fst r) trace')
      else trace)"
  by pat_completeness auto
termination
  by (relation "measure (\<lambda>(a, b, d, V, trace). nat (int (length a) + int (length b) - d + 1))") auto

subsection \<open>Backtracking\<close>

function backsnake :: "int \<Rightarrow> int \<Rightarrow> int \<Rightarrow> int \<Rightarrow> edit list \<Rightarrow> int \<times> int \<times> edit list" where
  \<comment> \<open>\<open>while (x > prevX && y > prevY) { x--; y--; edits.push(equal) }\<close>\<close>
  "backsnake x y prevX prevY edits =
     (if x > prevX \<and> y > prevY
      then backsnake (x - 1) (y - 1) prevX prevY
             (edits @ [\<lparr>etype = TEqual, li = x - 1, ri = y - 1\<rparr>])
      else (x, y, edits))"
  by pat_completeness auto
termination
  by (relation "measure (\<lambda>(x, y, prevX, prevY, edits). nat (x - prevX))") auto

definition back_edit :: "int \<Rightarrow> int \<Rightarrow> int \<Rightarrow> int \<times> int \<times> edit list \<Rightarrow> int \<times> int \<times> edit list" where
  \<comment> \<open>the \<open>if (d > 0) { ... }\<close> after the inner loop\<close>
  "back_edit d prevX prevY s =
     (case s of (x, y, edits) \<Rightarrow>
        if d > 0 then
          (if x > prevX then (x - 1, y, edits @ [\<lparr>etype = TDelete, li = x - 1, ri = - 1\<rparr>])
           else if y > prevY then (x, y - 1, edits @ [\<lparr>etype = TInsert, li = - 1, ri = y - 1\<rparr>])
           else (x, y, edits))
        else (x, y, edits))"

function backtrack :: "int \<Rightarrow> int list list \<Rightarrow> int \<Rightarrow> int \<Rightarrow> int \<Rightarrow> edit list \<Rightarrow> edit list" where
  \<comment> \<open>the loop \<open>for (d = trace.length - 1; d >= 0 && (x > 0 || y > 0); d--)\<close>\<close>
  "backtrack mx trace d x y edits =
     (if d \<ge> 0 \<and> (x > 0 \<or> y > 0) then
        (let vPrev = trace ! nat d; k = x - y; idx = k + mx;
             prevK = (if k = - d \<or> (k \<noteq> d \<and> vPrev ! nat (idx - 1) < vPrev ! nat (idx + 1))
                      then k + 1 else k - 1);
             prevX = vPrev ! nat (prevK + mx); prevY = prevX - prevK;
             s = back_edit d prevX prevY (backsnake x y prevX prevY edits)
         in backtrack mx trace (d - 1) (fst s) (fst (snd s)) (snd (snd s)))
      else edits)"
  by pat_completeness auto
termination
  by (relation "measure (\<lambda>(mx, trace, d, x, y, edits). nat (d + 1))") auto

definition myers_edits :: "'a list \<Rightarrow> 'a list \<Rightarrow> edit list" where
  \<comment> \<open>lines 69 to 116 of \<open>myersDiff\<close>: from the allocation of \<open>V\<close> to \<open>edits.reverse()\<close>\<close>
  "myers_edits a b =
     (let n = int (length a); m = int (length b); mx = n + m;
          V = replicate (nat (2 * mx + 1)) 0;
          trace = dloop a b 0 V []
      in rev (backtrack mx trace (int (length trace) - 1) n m []))"

subsection \<open>Consolidation into hunks\<close>

definition equal_hunk :: "jstring list \<Rightarrow> jstring list \<Rightarrow> edit \<Rightarrow> hunk" where
  "equal_hunk left right e =
     \<lparr>htype = HEqual, lLines = [lookup left (li e)], rLines = [lookup right (ri e)],
      lStart = li e, rStart = ri e\<rparr>"

definition changed_hunk :: "jstring list \<Rightarrow> jstring list \<Rightarrow> edit \<Rightarrow> edit \<Rightarrow> hunk" where
  "changed_hunk left right de ie =
     \<lparr>htype = HChanged, lLines = [lookup left (li de)], rLines = [lookup right (ri ie)],
      lStart = li de, rStart = ri ie\<rparr>"

definition removed_hunk :: "jstring list \<Rightarrow> edit \<Rightarrow> hunk" where
  "removed_hunk left de =
     \<lparr>htype = HRemoved, lLines = [lookup left (li de)], rLines = [Some []],
      lStart = li de, rStart = - 1\<rparr>"

definition added_hunk :: "jstring list \<Rightarrow> edit \<Rightarrow> hunk" where
  "added_hunk right ie =
     \<lparr>htype = HAdded, lLines = [Some []], rLines = [lookup right (ri ie)],
      lStart = - 1, rStart = ri ie\<rparr>"

definition is_del :: "edit \<Rightarrow> bool" where
  "is_del e \<longleftrightarrow> etype e = TDelete"

definition is_ins :: "edit \<Rightarrow> bool" where
  "is_ins e \<longleftrightarrow> etype e = TInsert"

definition block_hunks :: "jstring list \<Rightarrow> jstring list \<Rightarrow> edit list \<Rightarrow> edit list \<Rightarrow> hunk list" where
  \<comment> \<open>the hunks pushed for one collected pair \<open>dels\<close>, \<open>ins\<close>\<close>
  "block_hunks left right dels ins =
     (if length dels > 0 \<and> length ins > 0 then
        (let count = min (length dels) (length ins) in
           map (\<lambda>j. changed_hunk left right (dels ! j) (ins ! j)) [0 ..< count] @
           map (\<lambda>j. removed_hunk left (dels ! j)) [count ..< length dels] @
           map (\<lambda>j. added_hunk right (ins ! j)) [count ..< length ins])
      else map (removed_hunk left) dels @ map (added_hunk right) ins)"

function consolidate :: "jstring list \<Rightarrow> jstring list \<Rightarrow> edit list \<Rightarrow> hunk list" where
  \<comment> \<open>\<open>while (i < edits.length)\<close>; the argument is \<open>edits\<close> from index \<open>i\<close> on\<close>
  "consolidate left right [] = []"
| "consolidate left right (e # es) =
     (if etype e = TEqual then equal_hunk left right e # consolidate left right es
      else if etype e = TDelete then
        (let dels = takeWhile is_del (e # es); rest = dropWhile is_del (e # es);
             ins = takeWhile is_ins rest; rest' = dropWhile is_ins rest
         in block_hunks left right dels ins @ consolidate left right rest')
      else
        (let ins = takeWhile is_ins (e # es); rest = dropWhile is_ins (e # es)
         in map (added_hunk right) ins @ consolidate left right rest))"
  by pat_completeness auto
termination
proof (relation "measure (\<lambda>(left, right, es). length es)")
  show "wf (measure (\<lambda>(left, right, es). length es))" by simp
next
  fix left right :: "jstring list" and e :: edit and es
  show "((left, right, es), left, right, e # es) \<in> measure (\<lambda>(left, right, es). length es)"
    by simp
next
  fix left right :: "jstring list" and e :: edit and es x xa xb xc
  assume "etype e = TDelete" and "x = takeWhile is_del (e # es)"
    and "xa = dropWhile is_del (e # es)" and "xb = takeWhile is_ins xa"
    and "xc = dropWhile is_ins xa"
  then have "length xc \<le> length es"
    using length_dropWhile_le [of is_ins "dropWhile is_del es"] length_dropWhile_le [of is_del es]
    by (simp add: is_del_def)
  then show "((left, right, xc), left, right, e # es) \<in> measure (\<lambda>(left, right, es). length es)"
    by simp
next
  fix left right :: "jstring list" and e :: edit and es x xa
  assume "etype e \<noteq> TEqual" and "etype e \<noteq> TDelete" and "xa = dropWhile is_ins (e # es)"
  then have "is_ins e" by (cases "etype e") (simp_all add: is_ins_def)
  then have "length xa \<le> length es"
    using \<open>xa = dropWhile is_ins (e # es)\<close> length_dropWhile_le [of is_ins es] by simp
  then show "((left, right, xa), left, right, e # es) \<in> measure (\<lambda>(left, right, es). length es)"
    by simp
qed

definition myersDiff :: "jstring list \<Rightarrow> jstring list \<Rightarrow> bool \<Rightarrow> hunk list" where
  "myersDiff left right ignoreWhitespace =
     (let a = map (\<lambda>l. normalizeForCompare l ignoreWhitespace) left;
          b = map (\<lambda>l. normalizeForCompare l ignoreWhitespace) right
      in if int (length a) + int (length b) = 0 then []
         else consolidate left right (myers_edits a b))"

section \<open>Renderers, statistics and the public entry point\<close>

definition CONTEXT_LINES :: nat where
  "CONTEXT_LINES = 4"

definition nl :: jstring where
  "nl = [0x0A]"

function show_nat :: "nat \<Rightarrow> jstring" where
  \<comment> \<open>a non-negative integer inside a template literal: its decimal digits\<close>
  "show_nat k = (if k < 10 then [0x30 + of_nat k] else show_nat (k div 10) @ [0x30 + of_nat (k mod 10)])"
  by pat_completeness auto
termination
  by (relation "measure id") auto

definition to_string :: "jstring option \<Rightarrow> jstring" where
  \<comment> \<open>a value inside a template literal\<close>
  "to_string v = (case v of None \<Rightarrow> str ''undefined'' | Some t \<Rightarrow> t)"

definition first_line :: "jstring option list \<Rightarrow> jstring option" where
  \<comment> \<open>\<open>h.lLines[0]\<close>\<close>
  "first_line ls = (case ls of [] \<Rightarrow> None | v # _ \<Rightarrow> v)"

definition mark_visible :: "hunk list \<Rightarrow> bool list" where
  \<comment> \<open>the \<open>Uint8Array visible\<close>: \<open>Math.max(0, i - CONTEXT_LINES)\<close> is the truncating
      subtraction of natural numbers\<close>
  "mark_visible hs =
     fold (\<lambda>i vis. if htype (hs ! i) \<noteq> HEqual
                     then fold (\<lambda>j v. v[j := True])
                            [i - CONTEXT_LINES ..< min (length hs) (i + CONTEXT_LINES + 1)] vis
                     else vis)
       [0 ..< length hs] (replicate (length hs) False)"

fun line_nums :: "nat \<Rightarrow> nat \<Rightarrow> hunk list \<Rightarrow> (nat option \<times> nat option) list" where
  \<comment> \<open>\<open>hunks.map(...)\<close> with the two running counters \<open>lLineNum\<close>, \<open>rLineNum\<close>\<close>
  "line_nums l r [] = []"
| "line_nums l r (h # hs) =
     (if lStart h \<ge> 0 then Some l else None, if rStart h \<ge> 0 then Some r else None) #
     line_nums (if lStart h \<ge> 0 then l + 1 else l) (if rStart h \<ge> 0 then r + 1 else r) hs"

definition hasChanges :: "hunk list \<Rightarrow> bool" where
  "hasChanges hs = list_ex (\<lambda>h. htype h \<noteq> HEqual) hs"

definition no_differences :: jstring where
  "no_differences =
     str ''<div style=\"padding:20px;text-align:center;color:var(--diff-unchanged-text);font-family:var(--font-mono);font-size:0.85rem\">''
     @ [0x2713] @ str '' No differences found '' @ [0x2014] @ str '' files are identical</div>''"

definition separator :: "string \<Rightarrow> nat \<Rightarrow> jstring" where
  "separator cols skipped =
     str ''<tr class=\"diff-separator\"><td colspan=\"'' @ str cols @ str ''\">'' @ [0x22EF] @
     str '' '' @ show_nat skipped @ str '' unchanged line'' @
     (if skipped \<noteq> 1 then str ''s'' else []) @ str '' '' @ [0x22EF] @ str ''</td></tr>''"

definition typeToRowClass :: "hunk_type \<Rightarrow> jstring" where
  "typeToRowClass t =
     (case t of HEqual \<Rightarrow> str ''line-equal'' | HRemoved \<Rightarrow> str ''line-removed''
      | HAdded \<Rightarrow> str ''line-added'' | HChanged \<Rightarrow> str ''line-changed'')"

definition word_pair :: "hunk \<Rightarrow> (jstring \<times> jstring) option" where
  \<comment> \<open>\<open>wordDiff(h.lLines[0], h.rLines[0])\<close>; \<open>None\<close> when the call does not return a
      value (\<open>line.match\<close> on \<open>undefined\<close> throws a \<open>TypeError\<close>)\<close>
  "word_pair h =
     (case (first_line (lLines h), first_line (rLines h)) of
        (Some l, Some r) \<Rightarrow>
          (case wordDiff l r of None \<Rightarrow> None | Some w \<Rightarrow> Some (leftHtml w, rightHtml w))
      | _ \<Rightarrow> None)"

definition sbs_cells :: "hunk \<Rightarrow> (jstring \<times> jstring) option" where
  \<comment> \<open>\<open>lCode\<close> and \<open>rCode\<close> of one row of the side-by-side table\<close>
  "sbs_cells h =
     (case (if htype h = HChanged then word_pair h
            else Some (escape (first_line (lLines h)), escape (first_line (rLines h)))) of
        None \<Rightarrow> None
      | Some (lHtml, rHtml) \<Rightarrow>
          Some (if first_line (lLines h) \<noteq> Some [] then lHtml else [],
                if first_line (rLines h) \<noteq> Some [] then rHtml else []))"

definition sbs_row :: "jstring \<Rightarrow> jstring \<Rightarrow> jstring \<Rightarrow> jstring \<Rightarrow> jstring \<Rightarrow> jstring" where
  "sbs_row rowClass lNum lCode rNum rCode =
     nl @ str ''<tr class=\"diff-row '' @ rowClass @ str ''\" role=\"row\">'' @ nl @
     str ''  <td class=\"gutter-cell\" role=\"cell\">'' @ lNum @ str ''</td>'' @ nl @
     str ''  <td class=\"diff-cell\" role=\"cell\">'' @ lCode @ str ''</td>'' @ nl @
     str ''  <td class=\"diff-divider\" role=\"presentation\"></td>'' @ nl @
     str ''  <td class=\"gutter-cell\" role=\"cell\">'' @ rNum @ str ''</td>'' @ nl @
     str ''  <td class=\"diff-cell\" role=\"cell\">'' @ rCode @ str ''</td>'' @ nl @
     str ''</tr>''"

definition num_label :: "nat option \<Rightarrow> jstring" where
  \<comment> \<open>\<open>nums.l !== null ? nums.l : ''\<close>\<close>
  "num_label v = (case v of None \<Rightarrow> [] | Some k \<Rightarrow> show_nat k)"

function sbs_loop ::
  "hunk list \<Rightarrow> bool list \<Rightarrow> (nat option \<times> nat option) list \<Rightarrow> nat \<Rightarrow> jstring \<Rightarrow> nat option
     \<Rightarrow> (jstring \<times> nat option) option" where
  \<comment> \<open>the main loop of \<open>renderSideBySide\<close> from index \<open>i\<close>; the state is \<open>html\<close> and
      \<open>skippedStart\<close> (\<open>None\<close> for \<open>-1\<close>)\<close>
  "sbs_loop hs visible lineNums i acc skippedStart =
     (if i < length hs then
        (if \<not> visible ! i then
           sbs_loop hs visible lineNums (i + 1) acc
             (if skippedStart = None then Some i else skippedStart)
         else
           (let acc1 = (case skippedStart of None \<Rightarrow> acc
                        | Some st \<Rightarrow> acc @ separator ''6'' (i - st))
            in case sbs_cells (hs ! i) of
                 None \<Rightarrow> None
               | Some cells \<Rightarrow>
                   sbs_loop hs visible lineNums (i + 1)
                     (acc1 @ sbs_row (typeToRowClass (htype (hs ! i)))
                        (num_label (fst (lineNums ! i))) (fst cells)
                        (num_label (snd (lineNums ! i))) (snd cells))
                     None))
      else Some (acc, skippedStart))"
  by pat_completeness auto
termination
  by (relation "measure (\<lambda>(hs, visible, lineNums, i, acc, skippedStart). length hs - i)") auto

definition renderSideBySide :: "hunk list \<Rightarrow> jstring option" where
  "renderSideBySide hs =
     (if \<not> hasChanges hs then Some no_differences
      else
        (case sbs_loop hs (mark_visible hs) (line_nums 1 1 hs) 0
                (str ''<table class=\"diff-table\" role=\"table\"><colgroup><col/><col/><col/><col/><col/><col/></colgroup><tbody>'')
                None of
           None \<Rightarrow> None
         | Some (acc, skippedStart) \<Rightarrow>
             Some ((case skippedStart of None \<Rightarrow> acc
                    | Some st \<Rightarrow> acc @ separator ''6'' (length hs - st))
                   @ str ''</tbody></table>'')))"

definition inline_row :: "string \<Rightarrow> jstring \<Rightarrow> jstring \<Rightarrow> jstring \<Rightarrow> jstring" where
  "inline_row cls g1 g2 code =
     str ''<tr class=\"'' @ str cls @ str ''\">'' @ nl @
     str ''  <td class=\"inline-gutter\">'' @ g1 @ str ''</td>'' @ nl @
     str ''  <td class=\"inline-gutter\">'' @ g2 @ str ''</td>'' @ nl @
     str ''  <td class=\"inline-code\">'' @ code @ str ''</td>'' @ nl @
     str ''</tr>''"

definition inline_rows :: "hunk \<Rightarrow> nat \<Rightarrow> nat \<Rightarrow> jstring option" where
  \<comment> \<open>the markup added for one visible hunk, at line numbers \<open>ln\<close> and \<open>rn\<close>\<close>
  "inline_rows h ln rn =
     (case htype h of
        HEqual \<Rightarrow>
          Some (inline_row ''inline-equal'' (show_nat ln) (str ''  '') (escape (first_line (lLines h))))
      | HRemoved \<Rightarrow>
          Some (inline_row ''inline-removed'' (show_nat ln) [0x2212] (escape (first_line (lLines h))))
      | HAdded \<Rightarrow>
          Some (inline_row ''inline-added'' (str ''  '') (show_nat rn) (escape (first_line (rLines h))))
      | HChanged \<Rightarrow>
          (case word_pair h of
             None \<Rightarrow> None
           | Some w \<Rightarrow>
               Some (inline_row ''inline-removed'' (show_nat ln) [0x2212] (fst w) @ nl @
                     inline_row ''inline-added'' (str ''  '') (show_nat rn) (snd w))))"

function inline_loop ::
  "hunk list \<Rightarrow> bool list \<Rightarrow> nat \<Rightarrow> jstring \<Rightarrow> nat option \<Rightarrow> nat \<Rightarrow> nat
     \<Rightarrow> (jstring \<times> nat option) option" where
  \<comment> \<open>the main loop of \<open>renderInline\<close> from index \<open>i\<close>; the state is \<open>html\<close>,
      \<open>skippedStart\<close>, \<open>lLineNum\<close> and \<open>rLineNum\<close>\<close>
  "inline_loop hs visible i acc skippedStart lLineNum rLineNum =
     (if i < length hs then
        (if \<not> visible ! i then
           inline_loop hs visible (i + 1) acc
             (if skippedStart = None then Some i else skippedStart)
             (if lStart (hs ! i) \<ge> 0 then lLineNum + 1 else lLineNum)
             (if rStart (hs ! i) \<ge> 0 then rLineNum + 1 else rLineNum)
         else
           (let acc1 = (case skippedStart of None \<Rightarrow> acc
                        | Some st \<Rightarrow> acc @ separator ''3'' (i - st))
            in case inline_rows (hs ! i) lLineNum rLineNum of
                 None \<Rightarrow> None
               | Some rows \<Rightarrow>
                   inline_loop hs visible (i + 1) (acc1 @ rows) None
                     (if htype (hs ! i) = HAdded then lLineNum else lLineNum + 1)
                     (if htype (hs ! i) = HRemoved then rLineNum else rLineNum + 1)))
      else Some (acc, skippedStart))"
  by pat_completeness auto
termination
  by (relation "measure (\<lambda>(hs, visible, i, acc, skippedStart, l, r). length hs - i)") auto

definition renderInline :: "hunk list \<Rightarrow> jstring option" where
  "renderInline hs =
     (if \<not> hasChanges hs then Some no_differences
      else
        (case inline_loop hs (mark_visible hs) 0
                (str ''<table class=\"inline-table\" role=\"table\"><colgroup><col/><col/><col/></colgroup><tbody>'')
                None 1 1 of
           None \<Rightarrow> None
         | Some (acc, skippedStart) \<Rightarrow>
             Some ((case skippedStart of None \<Rightarrow> acc
                    | Some st \<Rightarrow> acc @ separator ''3'' (length hs - st))
                   @ str ''</tbody></table>'')))"

record stats =
  added :: nat
  removed :: nat
  changed :: nat

definition computeStats :: "hunk list \<Rightarrow> stats" where
  "computeStats hs =
     \<lparr>added = length (filter (\<lambda>h. htype h = HAdded) hs),
      removed = length (filter (\<lambda>h. htype h = HRemoved) hs),
      changed = length (filter (\<lambda>h. htype h = HChanged) hs)\<rparr>"

definition plain_lines :: "hunk \<Rightarrow> jstring" where
  \<comment> \<open>the text added to \<open>out\<close> for one hunk\<close>
  "plain_lines h =
     (case htype h of
        HEqual \<Rightarrow> str ''  '' @ to_string (first_line (lLines h)) @ nl
      | HRemoved \<Rightarrow> str ''- '' @ to_string (first_line (lLines h)) @ nl
      | HAdded \<Rightarrow> str ''+ '' @ to_string (first_line (rLines h)) @ nl
      | HChanged \<Rightarrow> str ''- '' @ to_string (first_line (lLines h)) @ nl @
                     str ''+ '' @ to_string (first_line (rLines h)) @ nl)"

definition renderPlainText :: "hunk list \<Rightarrow> jstring" where
  "renderPlainText hs = concat (map plain_lines hs)"

fun splitLines_from :: "jstring \<Rightarrow> jstring \<Rightarrow> jstring list" where
  \<comment> \<open>\<open>text.split(/\r?\n/)\<close>, with the segment collected so far\<close>
  "splitLines_from cur [] = [cur]"
| "splitLines_from cur [c] = (if c = 0x0A then [cur, []] else [cur @ [c]])"
| "splitLines_from cur (c # c' # cs) =
     (if c = 0x0A then cur # splitLines_from [] (c' # cs)
      else if c = 0x0D \<and> c' = 0x0A then cur # splitLines_from [] cs
      else splitLines_from (cur @ [c]) (c' # cs))"

definition splitLines :: "jstring \<Rightarrow> jstring list" where
  "splitLines text = splitLines_from [] text"

text \<open>
  \<open>JSON.parse\<close> and \<open>JSON.stringify\<close> belong to the language, not to the repository: they
  are parameters. \<open>parse\<close> returns the message of the \<open>SyntaxError\<close> it throws (\<open>Inl\<close>) or
  the parsed value; \<open>stringify\<close> is \<open>JSON.stringify(_, null, 2)\<close>.
\<close>

definition normalizeJSON :: "(jstring \<Rightarrow> jstring + 'j) \<Rightarrow> ('j \<Rightarrow> jstring) \<Rightarrow> jstring \<Rightarrow> jstring + jstring" where
  "normalizeJSON parse stringify text =
     (case parse text of Inl msg \<Rightarrow> Inl msg | Inr parsed \<Rightarrow> Inr (stringify parsed))"

record options =
  ignoreWhitespace :: bool
  jsonMode :: bool
  viewMode :: "jstring option"

record diff_result =
  html :: jstring
  stats :: stats
  plainText :: jstring
  hunks :: "hunk list"

datatype run_result = Failure jstring | Success diff_result

definition run ::
  "(jstring \<Rightarrow> jstring + 'j) \<Rightarrow> ('j \<Rightarrow> jstring) \<Rightarrow> jstring \<Rightarrow> jstring \<Rightarrow> options \<Rightarrow> run_result option" where
  \<comment> \<open>\<open>DiffEngine.run\<close>: \<open>Failure e\<close> is the result \<open>{ error: e }\<close>; \<open>None\<close> when the call
      does not return a result\<close>
  "run parse stringify leftText rightText opts =
     (case (if jsonMode opts then
              (case normalizeJSON parse stringify leftText of
                 Inl msg \<Rightarrow> Inl (str ''Left pane: Invalid JSON '' @ [0x2014] @ str '' '' @ msg)
               | Inr l \<Rightarrow>
                   (case normalizeJSON parse stringify rightText of
                      Inl msg \<Rightarrow> Inl (str ''Right pane: Invalid JSON '' @ [0x2014] @ str '' '' @ msg)
                    | Inr r \<Rightarrow> Inr (l, r)))
            else Inr (leftText, rightText)) of
        Inl e \<Rightarrow> Some (Failure e)
      | Inr (l, r) \<Rightarrow>
          (let hs = myersDiff (splitLines l) (splitLines r) (ignoreWhitespace opts)
           in case (if viewMode opts = Some (str ''sidebyside'') then renderSideBySide hs
                    else renderInline hs) of
                None \<Rightarrow> None
              | Some markup \<Rightarrow>
                  Some (Success \<lparr>html = markup, stats = computeStats hs,
                                  plainText = renderPlainText hs, hunks = hs\<rparr>)))"

declare wd_loop.simps [code]

declare snake.simps [simp del] kloop.simps [simp del] dloop.simps [simp del]
  backsnake.simps [simp del] backtrack.simps [simp del] lcs_back.simps [simp del]
  sbs_loop.simps [simp del] inline_loop.simps [simp del] show_nat.simps [simp del]

section \<open>Notions used to state the properties\<close>

subsection \<open>Word-level diff\<close>

text \<open>The number of tokens the lock-step walk still has to consume.\<close>

definition wd_measure :: "jstring list \<Rightarrow> jstring list \<Rightarrow> wd_state \<Rightarrow> nat" where
  "wd_measure tokA tokB s =
     (case s of (ai, bi, ci, lh, rh) \<Rightarrow> (length tokA - ai) + (length tokB - bi))"

text \<open>
  A token as it appears in the output of \<open>wordDiff\<close>: escaped, and wrapped in its span when
  it is marked. \<open>marked wrap bs ts\<close> is the concatenation for the tokens \<open>ts\<close> with the marks
  \<open>bs\<close>.
\<close>

definition mark :: "(jstring \<Rightarrow> jstring) \<Rightarrow> bool \<Rightarrow> jstring \<Rightarrow> jstring" where
  "mark wrap b t = (if b then wrap (escape (Some t)) else escape (Some t))"

definition marked :: "(jstring \<Rightarrow> jstring) \<Rightarrow> bool list \<Rightarrow> jstring list \<Rightarrow> jstring" where
  "marked wrap bs ts = concat (map (\<lambda>(b, t). mark wrap b t) (zip bs ts))"

text \<open>The two guards of the loop body of \<open>wordDiff\<close>.\<close>

definition wd_match :: "jstring list \<Rightarrow> jstring list \<Rightarrow> jstring list \<Rightarrow> nat \<Rightarrow> nat \<Rightarrow> nat \<Rightarrow> bool" where
  "wd_match tokA tokB lcs ai bi ci \<longleftrightarrow>
     ai < length tokA \<and> bi < length tokB \<and> ci < length lcs \<and>
     nth_opt tokA ai = nth_opt lcs ci \<and> nth_opt tokB bi = nth_opt lcs ci"

definition wd_add :: "jstring list \<Rightarrow> jstring list \<Rightarrow> jstring list \<Rightarrow> nat \<Rightarrow> nat \<Rightarrow> nat \<Rightarrow> bool" where
  "wd_add tokA tokB lcs ai bi ci \<longleftrightarrow>
     bi < length tokB \<and> (ai \<ge> length tokA \<or> nth_opt lcs ci \<notin> Some ` set (drop ai tokA))"

text \<open>
  The tokens that carry no mark, in order.
\<close>

definition unmarked :: "bool list \<Rightarrow> jstring list \<Rightarrow> jstring list" where
  "unmarked bs ts = map snd (filter (\<lambda>p. \<not> fst p) (zip bs ts))"

text \<open>
  What the walk returns from the state \<open>s\<close>: it consumes both token lists; the tokens it
  leaves unmarked are, on both sides, the elements of the common subsequence from the index
  of \<open>s\<close> to the final index \<open>ci'\<close>, and the two results are extended by the remaining
  tokens with the marks \<open>ml\<close> and \<open>mr\<close>.
\<close>

definition wd_final ::
  "jstring list \<Rightarrow> jstring list \<Rightarrow> jstring list \<Rightarrow> wd_state \<Rightarrow> bool list \<Rightarrow> bool list \<Rightarrow> nat \<Rightarrow> bool" where
  "wd_final tokA tokB lcs s ml mr ci' =
     (case s of (ai, bi, ci, lh, rh) \<Rightarrow>
        length ml = length tokA - ai \<and> length mr = length tokB - bi \<and> ci \<le> ci' \<and>
        unmarked ml (drop ai tokA) = take (ci' - ci) (drop ci lcs) \<and>
        unmarked mr (drop bi tokB) = take (ci' - ci) (drop ci lcs) \<and>
        wd_loop tokA tokB lcs s =
          Some (length tokA, length tokB, ci',
                lh @ marked word_removed ml (drop ai tokA),
                rh @ marked word_added mr (drop bi tokB)))"

subsection \<open>Safe markup\<close>

text \<open>
  A string is safe to embed when it holds none of \<open><\<close>, \<open>>\<close>, \<open>"\<close>, \<open>'\<close> and when every
  \<open>&\<close> in it starts one of the five entities of the table.
\<close>

definition forbidden :: "16 word set" where
  "forbidden = {0x3C, 0x3E, 0x22, 0x27}"

definition entities :: "jstring list" where
  "entities = [str ''&amp;'', str ''&lt;'', str ''&gt;'', str ''&quot;'', str ''&#39;'']"

fun amp_ok :: "jstring \<Rightarrow> bool" where
  "amp_ok [] = True"
| "amp_ok (c # cs) =
     ((c = 0x26 \<longrightarrow> list_ex (\<lambda>e. take (length e) (c # cs) = e) entities) \<and> amp_ok cs)"

definition html_safe :: "jstring \<Rightarrow> bool" where
  "html_safe s \<longleftrightarrow> set s \<inter> forbidden = {} \<and> amp_ok s"

subsection \<open>Rendered markup\<close>

text \<open>
  Markup is read as a sequence of pieces: a piece of the templates, which holds no input
  text, or the escaped form of a value. The pieces of the templates are the literal
  fragments of the two renderers and of \<open>wordDiff\<close>, and the decimal numbers they print.
  The values that may appear escaped are the first lines of the hunks (\<open>undefined\<close>
  included) and the tokens of those lines.
\<close>

datatype piece = Chrome jstring | Escaped "jstring option"

fun piece_text :: "piece \<Rightarrow> jstring" where
  "piece_text (Chrome m) = m"
| "piece_text (Escaped v) = escape v"

definition flatten :: "piece list \<Rightarrow> jstring" where
  "flatten ps = concat (map piece_text ps)"

definition templates :: "jstring list" where
  "templates =
     [nl, no_differences,
      str ''<table class=\"diff-table\" role=\"table\"><colgroup><col/><col/><col/><col/><col/><col/></colgroup><tbody>'',
      str ''<table class=\"inline-table\" role=\"table\"><colgroup><col/><col/><col/></colgroup><tbody>'',
      str ''</tbody></table>'',
      str ''<tr class=\"diff-separator\"><td colspan=\"'', str ''6'', str ''3'', str ''\">'',
      [0x22EF], str '' '', str '' unchanged line'', str ''s'', str ''</td></tr>'',
      str ''<tr class=\"diff-row '', str ''line-equal'', str ''line-removed'', str ''line-added'',
      str ''line-changed'', str ''\" role=\"row\">'',
      str ''  <td class=\"gutter-cell\" role=\"cell\">'', str ''</td>'',
      str ''  <td class=\"diff-cell\" role=\"cell\">'',
      str ''  <td class=\"diff-divider\" role=\"presentation\"></td>'', str ''</tr>'',
      str ''<tr class=\"'', str ''inline-equal'', str ''inline-removed'', str ''inline-added'',
      str ''  <td class=\"inline-gutter\">'', str ''  <td class=\"inline-code\">'',
      str ''  '', [0x2212],
      str ''<span class=\"word-added\">'', str ''<span class=\"word-removed\">'', str ''</span>'']"

definition decimal :: "jstring \<Rightarrow> bool" where
  "decimal s \<longleftrightarrow> list_all (\<lambda>c. 0x30 \<le> c \<and> c \<le> 0x39) s"

definition line_tokens :: "jstring option \<Rightarrow> jstring option set" where
  "line_tokens v = (case v of None \<Rightarrow> {} | Some l \<Rightarrow> Some ` set (tokenizeWords l))"

definition raw_text :: "hunk list \<Rightarrow> jstring option set" where
  "raw_text hs =
     (\<Union>h \<in> set hs. {first_line (lLines h), first_line (rLines h)} \<union>
        line_tokens (first_line (lLines h)) \<union> line_tokens (first_line (rLines h)))"

fun view_piece :: "hunk list \<Rightarrow> piece \<Rightarrow> bool" where
  "view_piece hs (Chrome m) \<longleftrightarrow> m \<in> set templates \<or> decimal m"
| "view_piece hs (Escaped v) \<longleftrightarrow> v \<in> raw_text hs"

definition view_ok :: "hunk list \<Rightarrow> jstring \<Rightarrow> bool" where
  "view_ok hs s \<longleftrightarrow> (\<exists>ps. s = flatten ps \<and> list_all (view_piece hs) ps)"

text \<open>
  A hunk that the renderers can print: a changed hunk has a first line on both sides, so
  that \<open>wordDiff\<close> receives two strings.
\<close>

definition renderable :: "hunk \<Rightarrow> bool" where
  "renderable h \<longleftrightarrow>
     (htype h = HChanged \<longrightarrow> first_line (lLines h) \<noteq> None \<and> first_line (rLines h) \<noteq> None)"

subsection \<open>Results and hunks\<close>

definition result_hunks :: "run_result option \<Rightarrow> hunk list option" where
  \<comment> \<open>the \<open>hunks\<close> field of a success result\<close>
  "result_hunks r = (case r of Some (Success d) \<Rightarrow> Some (hunks d) | _ \<Rightarrow> None)"

text \<open>
  The hunks of one block of deletes followed by inserts, written with \<open>drop\<close>: positional
  pairs first, then the surplus of either side.
\<close>

definition paired_hunks :: "jstring list \<Rightarrow> jstring list \<Rightarrow> edit list \<Rightarrow> edit list \<Rightarrow> hunk list" where
  "paired_hunks left right dels ins =
     (let count = min (length dels) (length ins) in
        map (\<lambda>j. changed_hunk left right (dels ! j) (ins ! j)) [0 ..< count] @
        map (removed_hunk left) (drop count dels) @
        map (added_hunk right) (drop count ins))"

text \<open>
  The left side of a hunk list: start index and lines of every hunk whose left side is
  present (every hunk but the added ones), in order; and the same for the right side.
\<close>

definition left_side :: "hunk list \<Rightarrow> (int \<times> jstring option list) list" where
  "left_side hs = map (\<lambda>h. (lStart h, lLines h)) (filter (\<lambda>h. htype h \<noteq> HAdded) hs)"

definition right_side :: "hunk list \<Rightarrow> (int \<times> jstring option list) list" where
  "right_side hs = map (\<lambda>h. (rStart h, rLines h)) (filter (\<lambda>h. htype h \<noteq> HRemoved) hs)"

subsection \<open>The edit graph\<close>

text \<open>
  Position \<open>i\<close> of diagonal \<open>k\<close> is a match when line \<open>i\<close> of \<open>a\<close> and line \<open>i - k\<close> of \<open>b\<close>
  exist (or both reads give \<open>undefined\<close> below index 0) and are equal: the guard of the
  inner loop of the search.
\<close>

definition match_at :: "'a list \<Rightarrow> 'a list \<Rightarrow> int \<Rightarrow> int \<Rightarrow> bool" where
  "match_at a b k i \<longleftrightarrow> i < int (length a) \<and> i - k < int (length b) \<and> lookup a i = lookup b (i - k)"

text \<open>
  \<open>reach a b d x y\<close>: the point \<open>(x, y)\<close> is reached from \<open>(0, 0)\<close> by a path with exactly
  \<open>d\<close> horizontal or vertical moves (deletes and inserts) and any number of diagonal moves
  along matches. Horizontal and vertical moves may leave the grid, exactly as the search
  lets \<open>x\<close> exceed \<open>n\<close> and \<open>y\<close> exceed \<open>m\<close>.
\<close>

inductive reach :: "'a list \<Rightarrow> 'a list \<Rightarrow> int \<Rightarrow> int \<Rightarrow> int \<Rightarrow> bool" for a b where
  start: "reach a b 0 0 0"
| diag: "reach a b d x y \<Longrightarrow> match_at a b (x - y) x \<Longrightarrow> reach a b d (x + 1) (y + 1)"
| right: "reach a b d x y \<Longrightarrow> reach a b (d + 1) (x + 1) y"
| down: "reach a b d x y \<Longrightarrow> reach a b (d + 1) x (y + 1)"

text \<open>The furthest \<open>x\<close> reached on diagonal \<open>k\<close> with \<open>d\<close> moves.\<close>

definition furthest :: "'a list \<Rightarrow> 'a list \<Rightarrow> int \<Rightarrow> int \<Rightarrow> int \<Rightarrow> bool" where
  "furthest a b d k x \<longleftrightarrow> reach a b d x (x - k) \<and> (\<forall>x'. reach a b d x' (x' - k) \<longrightarrow> x' \<le> x)"

text \<open>
  The start of the snake on diagonal \<open>k\<close> in round \<open>d\<close>, as the search and the backtracking
  both compute it from the array of the previous round.
\<close>

definition start_x :: "int \<Rightarrow> int \<Rightarrow> int \<Rightarrow> int list \<Rightarrow> int" where
  "start_x mx d k V =
     (if k = - d \<or> (k \<noteq> d \<and> V ! nat (k + mx - 1) < V ! nat (k + mx + 1))
      then V ! nat (k + mx + 1) else V ! nat (k + mx - 1) + 1)"

text \<open>
  \<open>prev_ok\<close>: \<open>V\<close> holds the furthest points of round \<open>d - 1\<close> (before round 0: the zero at
  index \<open>max + 1\<close>). \<open>cur_ok\<close>: \<open>V\<close> holds the furthest points of round \<open>d\<close> on the
  diagonals below \<open>k\<close>, none of them at or beyond the end of both sequences.
\<close>

definition prev_ok :: "'a list \<Rightarrow> 'a list \<Rightarrow> int \<Rightarrow> int \<Rightarrow> int list \<Rightarrow> bool" where
  "prev_ok a b mx d V \<longleftrightarrow>
     (if d = 0 then V ! nat (mx + 1) = 0
      else \<forall>j. \<bar>j\<bar> \<le> d - 1 \<and> even (d - 1 - j) \<longrightarrow> furthest a b (d - 1) j (V ! nat (j + mx)))"

definition cur_ok :: "'a list \<Rightarrow> 'a list \<Rightarrow> int \<Rightarrow> int \<Rightarrow> int \<Rightarrow> int list \<Rightarrow> bool" where
  "cur_ok a b mx d k V \<longleftrightarrow>
     (\<forall>j. - d \<le> j \<and> j < k \<and> even (d - j) \<longrightarrow>
        furthest a b d j (V ! nat (j + mx)) \<and>
        \<not> (int (length a) \<le> V ! nat (j + mx) \<and> int (length b) \<le> V ! nat (j + mx) - j))"

subsection \<open>Edit scripts and the edit distance\<close>

text \<open>
  \<open>is_path a b x y es\<close>: the edits \<open>es\<close>, read in order from position \<open>(x, y)\<close>, transform the
  rest of \<open>a\<close> into the rest of \<open>b\<close>: an equal edit keeps a line that is the same on both
  sides, a delete drops the next line of \<open>a\<close>, an insert takes the next line of \<open>b\<close>, each
  recording the index it touches, and the script ends at the end of both sequences.
\<close>

fun is_path :: "'a list \<Rightarrow> 'a list \<Rightarrow> int \<Rightarrow> int \<Rightarrow> edit list \<Rightarrow> bool" where
  "is_path a b x y [] \<longleftrightarrow> x = int (length a) \<and> y = int (length b)"
| "is_path a b x y (e # es) \<longleftrightarrow>
     (case etype e of
        TEqual \<Rightarrow> li e = x \<and> ri e = y \<and> 0 \<le> x \<and> 0 \<le> y \<and> x < int (length a) \<and>
                  y < int (length b) \<and> lookup a x = lookup b y \<and> is_path a b (x + 1) (y + 1) es
      | TDelete \<Rightarrow> li e = x \<and> ri e = - 1 \<and> 0 \<le> x \<and> x < int (length a) \<and> is_path a b (x + 1) y es
      | TInsert \<Rightarrow> li e = - 1 \<and> ri e = y \<and> 0 \<le> y \<and> y < int (length b) \<and> is_path a b x (y + 1) es)"

definition count_noneq :: "edit list \<Rightarrow> nat" where
  "count_noneq es = length (filter (\<lambda>e. etype e \<noteq> TEqual) es)"

text \<open>The edit distance with insertions and deletions only, by the textbook recursion.\<close>

fun edist :: "'a list \<Rightarrow> 'a list \<Rightarrow> nat" where
  "edist [] ys = length ys"
| "edist xs [] = length xs"
| "edist (x # xs) (y # ys) =
     (if x = y then min (edist xs ys) (min (1 + edist xs (y # ys)) (1 + edist (x # xs) ys))
      else min (1 + edist xs (y # ys)) (1 + edist (x # xs) ys))"

subsection \<open>Presence of the two sides of a hunk\<close>

definition left_present :: "jstring list \<Rightarrow> hunk \<Rightarrow> bool" where
  "left_present left h \<longleftrightarrow>
     0 \<le> lStart h \<and> lStart h < int (length left) \<and> lLines h = [Some (left ! nat (lStart h))]"

definition right_present :: "jstring list \<Rightarrow> hunk \<Rightarrow> bool" where
  "right_present right h \<longleftrightarrow>
     0 \<le> rStart h \<and> rStart h < int (length right) \<and> rLines h = [Some (right ! nat (rStart h))]"

definition left_absent :: "hunk \<Rightarrow> bool" where
  "left_absent h \<longleftrightarrow> lStart h = - 1 \<and> lLines h = [Some []]"

definition right_absent :: "hunk \<Rightarrow> bool" where
  "right_absent h \<longleftrightarrow> rStart h = - 1 \<and> rLines h = [Some []]"

definition side_ok :: "jstring list \<Rightarrow> jstring list \<Rightarrow> hunk \<Rightarrow> bool" where
  "side_ok left right h =
     (case htype h of
        HEqual \<Rightarrow> left_present left h \<and> right_present right h
      | HChanged \<Rightarrow> left_present left h \<and> right_present right h
      | HRemoved \<Rightarrow> left_present left h \<and> right_absent h
      | HAdded \<Rightarrow> left_absent h \<and> right_present right h)"

definition edit_ok :: "nat \<Rightarrow> nat \<Rightarrow> edit \<Rightarrow> bool" where
  "edit_ok n m e =
     (case etype e of
        TEqual \<Rightarrow> 0 \<le> li e \<and> li e < int n \<and> 0 \<le> ri e \<and> ri e < int m
      | TDelete \<Rightarrow> 0 \<le> li e \<and> li e < int n
      | TInsert \<Rightarrow> 0 \<le> ri e \<and> ri e < int m)"

text \<open>Where a hunk of the consolidator comes from.\<close>

definition from_edits :: "jstring list \<Rightarrow> jstring list \<Rightarrow> edit list \<Rightarrow> hunk \<Rightarrow> bool" where
  "from_edits left right es h \<longleftrightarrow>
     (\<exists>e\<in>set es. etype e = TEqual \<and> h = equal_hunk left right e) \<or>
     (\<exists>d\<in>set es. \<exists>i\<in>set es. is_del d \<and> is_ins i \<and> h = changed_hunk left right d i) \<or>
     (\<exists>d\<in>set es. is_del d \<and> h = removed_hunk left d) \<or>
     (\<exists>i\<in>set es. is_ins i \<and> h = added_hunk right i)"

section \<open>The tokenizer and the word-level diff\<close>

lemma wd_step_decreases:
  "wd_cond tokA tokB s \<Longrightarrow> wd_measure tokA tokB (wd_step tokA tokB lcs s) < wd_measure tokA tokB s"
  by (cases s) (auto simp: wd_cond_def wd_measure_def wd_step_def)

lemma wd_step_advances:
  "wd_cond tokA tokB s \<Longrightarrow>
     fst s \<le> fst (wd_step tokA tokB lcs s) \<and> fst (snd s) \<le> fst (snd (wd_step tokA tokB lcs s)) \<and>
     (fst s < fst (wd_step tokA tokB lcs s) \<or> fst (snd s) < fst (snd (wd_step tokA tokB lcs s)))"
  by (cases s) (auto simp: wd_cond_def wd_step_def)

lemma wd_loop_returns: "wd_loop tokA tokB lcs s \<noteq> None"
proof (induction "wd_measure tokA tokB s" arbitrary: s rule: less_induct)
  case less
  show ?case
  proof (cases "wd_cond tokA tokB s")
    case True
    from less [OF wd_step_decreases [OF True, of lcs]]
    have "wd_loop tokA tokB lcs (wd_step tokA tokB lcs s) \<noteq> None" .
    with True show ?thesis by (subst wd_loop.simps) simp
  next
    case False
    then show ?thesis by (subst wd_loop.simps) simp
  qed
qed

lemma wordDiff_returns: "\<exists>r. wordDiff lineA lineB = Some r"
proof -
  obtain r where "wd_loop (tokenizeWords lineA) (tokenizeWords lineB)
     (computeLCS (tokenizeWords lineA) (tokenizeWords lineB)) (0, 0, 0, [], []) = Some r"
    using wd_loop_returns by blast
  then show ?thesis by (cases r) (simp add: wordDiff_def Let_def)
qed

lemma wd_loop_no_lcs:
  "ai \<le> length tokA \<Longrightarrow> bi \<le> length tokB \<Longrightarrow>
   wd_loop tokA tokB [] (ai, bi, 0, lh, rh) =
     Some (length tokA, length tokB, 0,
           lh @ concat (map (\<lambda>t. word_removed (escape (Some t))) (drop ai tokA)),
           rh @ concat (map (\<lambda>t. word_added (escape (Some t))) (drop bi tokB)))"
proof (induction "(length tokA - ai) + (length tokB - bi)" arbitrary: ai bi lh rh rule: less_induct)
  case less
  show ?case
  proof (cases "bi < length tokB")
    case True
    then have step: "wd_step tokA tokB [] (ai, bi, 0, lh, rh) =
        (ai, bi + 1, 0, lh, rh @ word_added (escape (Some (tokB ! bi))))"
      by (auto simp: wd_step_def nth_opt_def)
    have "wd_loop tokA tokB [] (ai, bi, 0, lh, rh) =
          wd_loop tokA tokB [] (ai, bi + 1, 0, lh, rh @ word_added (escape (Some (tokB ! bi))))"
      using True step by (simp add: wd_loop.simps [of tokA tokB "[]" "(ai, bi, 0, lh, rh)"] wd_cond_def)
    also have "\<dots> = Some (length tokA, length tokB, 0,
           lh @ concat (map (\<lambda>t. word_removed (escape (Some t))) (drop ai tokA)),
           (rh @ word_added (escape (Some (tokB ! bi)))) @
             concat (map (\<lambda>t. word_added (escape (Some t))) (drop (bi + 1) tokB)))"
      using True less.prems by (intro less.hyps) auto
    finally show ?thesis using True by (simp add: Cons_nth_drop_Suc [symmetric])
  next
    case bi: False
    show ?thesis
    proof (cases "ai < length tokA")
      case True
      then have step: "wd_step tokA tokB [] (ai, bi, 0, lh, rh) =
          (ai + 1, bi, 0, lh @ word_removed (escape (Some (tokA ! ai))), rh)"
        using bi by (auto simp: wd_step_def nth_opt_def)
      have "wd_loop tokA tokB [] (ai, bi, 0, lh, rh) =
            wd_loop tokA tokB [] (ai + 1, bi, 0, lh @ word_removed (escape (Some (tokA ! ai))), rh)"
        using True step by (simp add: wd_loop.simps [of tokA tokB "[]" "(ai, bi, 0, lh, rh)"] wd_cond_def)
      also have "\<dots> = Some (length tokA, length tokB, 0,
           (lh @ word_removed (escape (Some (tokA ! ai)))) @
              concat (map (\<lambda>t. word_removed (escape (Some t))) (drop (ai + 1) tokA)),
           rh @ concat (map (\<lambda>t. word_added (escape (Some t))) (drop bi tokB)))"
        using True less.prems by (intro less.hyps) auto
      finally show ?thesis using True by (simp add: Cons_nth_drop_Suc [symmetric])
    next
      case False
      with bi less.prems show ?thesis
        by (subst wd_loop.simps) (simp add: wd_cond_def)
    qed
  qed
qed

lemma computeLCS_capped: "length a * length b > 100000 \<Longrightarrow> computeLCS a b = []"
  by (simp add: computeLCS_def Let_def)

lemma tokenizeWords_symbols:
  "\<not> is_word_char c \<Longrightarrow> \<not> is_space_char c \<Longrightarrow> tokenizeWords (replicate k c) = replicate k [c]"
  by (induction k) simp_all

lemma marked_Cons: "marked wrap (b # bs) (t # ts) = mark wrap b t @ marked wrap bs ts"
  by (simp add: marked_def)

lemma wd_step_match:
  "wd_match tokA tokB lcs ai bi ci \<Longrightarrow>
   wd_step tokA tokB lcs (ai, bi, ci, lh, rh) =
     (ai + 1, bi + 1, ci + 1, lh @ mark word_removed False (tokA ! ai),
      rh @ mark word_added False (tokB ! bi))"
  by (auto simp: wd_match_def wd_step_def mark_def nth_opt_def)

lemma wd_step_add:
  "\<not> wd_match tokA tokB lcs ai bi ci \<Longrightarrow> wd_add tokA tokB lcs ai bi ci \<Longrightarrow>
   wd_step tokA tokB lcs (ai, bi, ci, lh, rh) =
     (ai, bi + 1, ci, lh, rh @ mark word_added True (tokB ! bi))"
  by (auto simp: wd_match_def wd_add_def wd_step_def mark_def nth_opt_def)

lemma wd_step_remove:
  "\<not> wd_match tokA tokB lcs ai bi ci \<Longrightarrow> \<not> wd_add tokA tokB lcs ai bi ci \<Longrightarrow>
   ai < length tokA \<Longrightarrow>
   wd_step tokA tokB lcs (ai, bi, ci, lh, rh) =
     (ai + 1, bi, ci, lh @ mark word_removed True (tokA ! ai), rh)"
  by (auto simp: wd_match_def wd_add_def wd_step_def mark_def nth_opt_def)

lemma unmarked_Cons:
  "unmarked (b # bs) (t # ts) = (if b then unmarked bs ts else t # unmarked bs ts)"
  by (simp add: unmarked_def)

lemma take_drop_step:
  "ci < length lcs \<Longrightarrow> ci < ci' \<Longrightarrow>
   take (ci' - ci) (drop ci lcs) = lcs ! ci # take (ci' - (ci + 1)) (drop (ci + 1) lcs)"
proof -
  assume a: "ci < length lcs" "ci < ci'"
  then have "ci' - ci = Suc (ci' - (ci + 1))" by simp
  moreover from a have "drop ci lcs = lcs ! ci # drop (ci + 1) lcs"
    by (simp add: Cons_nth_drop_Suc)
  ultimately show ?thesis by simp
qed

lemma wd_loop_marks:
  "ai \<le> length tokA \<Longrightarrow> bi \<le> length tokB \<Longrightarrow>
   \<exists>ml mr ci'. wd_final tokA tokB lcs (ai, bi, ci, lh, rh) ml mr ci'"
proof (induction "(length tokA - ai) + (length tokB - bi)" arbitrary: ai bi ci lh rh rule: less_induct)
  case less
  let ?n = "length tokA" and ?m = "length tokB"
  show ?case
  proof (cases "wd_cond tokA tokB (ai, bi, ci, lh, rh)")
    case False
    then have "ai = ?n" "bi = ?m"
      using less.prems by (auto simp: wd_cond_def)
    then have "wd_final tokA tokB lcs (ai, bi, ci, lh, rh) [] [] ci"
      unfolding wd_final_def
      by (subst wd_loop.simps) (simp add: wd_cond_def marked_def unmarked_def)
    then show ?thesis by blast
  next
    case True
    have unfold: "wd_loop tokA tokB lcs (ai, bi, ci, lh, rh) =
        wd_loop tokA tokB lcs (wd_step tokA tokB lcs (ai, bi, ci, lh, rh))"
      using True by (subst wd_loop.simps) simp
    consider (match) "wd_match tokA tokB lcs ai bi ci"
      | (add) "\<not> wd_match tokA tokB lcs ai bi ci" "wd_add tokA tokB lcs ai bi ci"
      | (remove) "\<not> wd_match tokA tokB lcs ai bi ci" "\<not> wd_add tokA tokB lcs ai bi ci"
      by blast
    then show ?thesis
    proof cases
      case match
      then have lt: "ai < ?n" "bi < ?m" "ci < length lcs" by (simp_all add: wd_match_def)
      from match lt have eq: "tokA ! ai = lcs ! ci" "tokB ! bi = lcs ! ci"
        by (simp_all add: wd_match_def nth_opt_def)
      have "\<exists>ml mr ci'. wd_final tokA tokB lcs
          (ai + 1, bi + 1, ci + 1, lh @ mark word_removed False (tokA ! ai),
             rh @ mark word_added False (tokB ! bi)) ml mr ci'"
        using lt by (intro less.hyps) simp_all
      then obtain ml mr ci' where r: "wd_final tokA tokB lcs
          (ai + 1, bi + 1, ci + 1, lh @ mark word_removed False (tokA ! ai),
             rh @ mark word_added False (tokB ! bi)) ml mr ci'"
        by blast
      then have lt': "ci < ci'" by (simp add: wd_final_def)
      have da: "drop ai tokA = tokA ! ai # drop (ai + 1) tokA"
        and db: "drop bi tokB = tokB ! bi # drop (bi + 1) tokB"
        using lt by (simp_all add: Cons_nth_drop_Suc)
      have "wd_final tokA tokB lcs (ai, bi, ci, lh, rh) (False # ml) (False # mr) ci'"
        using r lt lt' unfolding wd_final_def prod.case unfold wd_step_match [OF match] da db
        by (auto simp: marked_Cons unmarked_Cons take_drop_step [OF lt(3) lt'] eq)
      then show ?thesis by blast
    next
      case add
      then have lt: "bi < ?m" by (simp add: wd_add_def)
      have "\<exists>ml mr ci'. wd_final tokA tokB lcs
          (ai, bi + 1, ci, lh, rh @ mark word_added True (tokB ! bi)) ml mr ci'"
        using lt less.prems by (intro less.hyps) simp_all
      then obtain ml mr ci' where r: "wd_final tokA tokB lcs
          (ai, bi + 1, ci, lh, rh @ mark word_added True (tokB ! bi)) ml mr ci'"
        by blast
      have db: "drop bi tokB = tokB ! bi # drop (bi + 1) tokB"
        using lt by (simp add: Cons_nth_drop_Suc)
      have "wd_final tokA tokB lcs (ai, bi, ci, lh, rh) ml (True # mr) ci'"
        using r lt unfolding wd_final_def prod.case unfold wd_step_add [OF add] db
        by (auto simp: marked_Cons unmarked_Cons)
      then show ?thesis by blast
    next
      case remove
      have lt: "ai < ?n"
        using True remove(2) by (auto simp: wd_cond_def wd_add_def)
      have "\<exists>ml mr ci'. wd_final tokA tokB lcs
          (ai + 1, bi, ci, lh @ mark word_removed True (tokA ! ai), rh) ml mr ci'"
        using lt less.prems by (intro less.hyps) simp_all
      then obtain ml mr ci' where r: "wd_final tokA tokB lcs
          (ai + 1, bi, ci, lh @ mark word_removed True (tokA ! ai), rh) ml mr ci'"
        by blast
      have da: "drop ai tokA = tokA ! ai # drop (ai + 1) tokA"
        using lt by (simp add: Cons_nth_drop_Suc)
      have "wd_final tokA tokB lcs (ai, bi, ci, lh, rh) (True # ml) mr ci'"
        using r lt unfolding wd_final_def prod.case unfold wd_step_remove [OF remove lt] da
        by (auto simp: marked_Cons unmarked_Cons)
      then show ?thesis by blast
    qed
  qed
qed

lemma wordDiff_marks:
  "\<exists>ml mr k. length ml = length (tokenizeWords lineA) \<and> length mr = length (tokenizeWords lineB) \<and>
     unmarked ml (tokenizeWords lineA) = take k (computeLCS (tokenizeWords lineA) (tokenizeWords lineB)) \<and>
     unmarked mr (tokenizeWords lineB) = take k (computeLCS (tokenizeWords lineA) (tokenizeWords lineB)) \<and>
     wordDiff lineA lineB =
       Some \<lparr>leftHtml = marked word_removed ml (tokenizeWords lineA),
             rightHtml = marked word_added mr (tokenizeWords lineB)\<rparr>"
proof -
  from wd_loop_marks [of 0 "tokenizeWords lineA" 0 "tokenizeWords lineB"
      "computeLCS (tokenizeWords lineA) (tokenizeWords lineB)" 0 "[]" "[]"]
  obtain ml mr ci' where "wd_final (tokenizeWords lineA) (tokenizeWords lineB)
      (computeLCS (tokenizeWords lineA) (tokenizeWords lineB)) (0, 0, 0, [], []) ml mr ci'"
    by auto
  then show ?thesis
    by (intro exI [of _ ml] exI [of _ mr] exI [of _ ci']) (simp add: wd_final_def wordDiff_def Let_def)
qed

section \<open>HTML escaping is safe\<close>

lemma amp_ok_append_plain: "0x26 \<notin> set e \<Longrightarrow> amp_ok (e @ s) = amp_ok s"
  by (induction e) auto

lemma amp_ok_escape_str: "amp_ok (escape_str s)"
proof (induction s)
  case Nil
  then show ?case by (simp add: escape_str_def)
next
  case (Cons c s)
  have IH: "amp_ok (concat (map (\<lambda>c. if esc_class c
      then (case ESC c of Some e \<Rightarrow> e | None \<Rightarrow> str ''undefined'') else [c]) s))"
    using Cons by (simp add: escape_str_def)
  show ?case
    using IH by (simp add: escape_str_def esc_class_def ESC_def entities_def str_def)
qed

lemma forbidden_escape_str: "set (escape_str s) \<inter> forbidden = {}"
  by (induction s) (auto simp: escape_str_def esc_class_def ESC_def str_def forbidden_def)

lemma html_safe_escape: "html_safe (escape v)"
  by (cases v) (simp_all add: html_safe_def escape_def amp_ok_escape_str forbidden_escape_str)

section \<open>The entry point on empty texts and on malformed JSON\<close>

lemma normalizeForCompare_empty: "normalizeForCompare [] iw = []"
  by (simp add: normalizeForCompare_def trim_def)

lemma myers_edits_empty_lines: "myers_edits [[]::jstring] [[]] = [\<lparr>etype = TEqual, li = 0, ri = 0\<rparr>]"
  by (simp add: myers_edits_def snake.simps kloop.simps dloop.simps backsnake.simps backtrack.simps lookup_def back_edit_def Let_def)

lemma myersDiff_empty_lines:
  "myersDiff [[]] [[]] iw = [\<lparr>htype = HEqual, lLines = [Some []], rLines = [Some []], lStart = 0, rStart = 0\<rparr>]"
  by (simp add: myersDiff_def normalizeForCompare_empty myers_edits_empty_lines equal_hunk_def lookup_def)

lemma run_empty_texts:
  "\<not> jsonMode opts \<Longrightarrow>
   run parse stringify [] [] opts =
     Some (Success \<lparr>html = no_differences, stats = \<lparr>added = 0, removed = 0, changed = 0\<rparr>,
        plainText = str ''  '' @ nl,
        hunks = [\<lparr>htype = HEqual, lLines = [Some []], rLines = [Some []], lStart = 0, rStart = 0\<rparr>]\<rparr>)"
  by (simp add: run_def Let_def splitLines_def myersDiff_empty_lines renderSideBySide_def renderInline_def
       hasChanges_def computeStats_def renderPlainText_def plain_lines_def first_line_def to_string_def)

section \<open>The consolidator\<close>

lemma map_nth_from: "map (\<lambda>j. f (xs ! j)) [c ..< length xs] = map f (drop c xs)"
  by (rule nth_equalityI) (simp_all add: add.commute)

lemma block_hunks_paired: "block_hunks left right dels ins = paired_hunks left right dels ins"
  by (cases "dels = []"; cases "ins = []") (simp_all add: block_hunks_def paired_hunks_def Let_def map_nth_from)

lemma takeWhile_all: "(\<forall>x\<in>set xs. P x) \<Longrightarrow> ys = [] \<or> \<not> P (hd ys) \<Longrightarrow> takeWhile P (xs @ ys) = xs"
  by (cases ys) (simp_all add: takeWhile_append2)

lemma dropWhile_all: "(\<forall>x\<in>set xs. P x) \<Longrightarrow> ys = [] \<or> \<not> P (hd ys) \<Longrightarrow> dropWhile P (xs @ ys) = ys"
  by (cases ys) (simp_all add: dropWhile_append2)

lemma is_del_not_ins: "is_del e \<Longrightarrow> \<not> is_ins e"
  by (simp add: is_del_def is_ins_def)

lemma consolidate_block:
  assumes ds: "ds \<noteq> []" "\<forall>d\<in>set ds. is_del d" and ins: "\<forall>i\<in>set ins. is_ins i"
    and rest: "rest = [] \<or> \<not> is_ins (hd rest)" and mx: "ins = [] \<longrightarrow> rest = [] \<or> \<not> is_del (hd rest)"
  shows "consolidate left right (ds @ ins @ rest) =
           paired_hunks left right ds ins @ consolidate left right rest"
proof -
  obtain d ds' where d: "ds = d # ds'" using ds(1) by (cases ds) auto
  have hd: "etype d = TDelete" using ds(2) d by (simp add: is_del_def)
  have nd: "ins @ rest = [] \<or> \<not> is_del (hd (ins @ rest))"
    using ins mx by (cases ins) (auto simp: is_del_def is_ins_def)
  have t1: "takeWhile is_del (ds @ ins @ rest) = ds" and d1: "dropWhile is_del (ds @ ins @ rest) = ins @ rest"
    using ds(2) nd by (rule takeWhile_all, rule dropWhile_all)
  have t2: "takeWhile is_ins (ins @ rest) = ins" and d2: "dropWhile is_ins (ins @ rest) = rest"
    using ins rest by (rule takeWhile_all, rule dropWhile_all)
  have "consolidate left right (d # ds' @ ins @ rest) =
      block_hunks left right (takeWhile is_del (d # ds' @ ins @ rest))
        (takeWhile is_ins (dropWhile is_del (d # ds' @ ins @ rest))) @
      consolidate left right (dropWhile is_ins (dropWhile is_del (d # ds' @ ins @ rest)))"
    using hd by (simp add: Let_def del: takeWhile.simps dropWhile.simps)
  then show ?thesis
    using t1 d1 t2 d2 unfolding d by (simp add: block_hunks_paired del: takeWhile.simps dropWhile.simps)
qed

lemma takeWhile_stops: "x \<in> set xs \<Longrightarrow> \<not> P x \<Longrightarrow> takeWhile P (xs @ ys) = takeWhile P xs"
  by (induction xs) auto

lemma dropWhile_stops: "x \<in> set xs \<Longrightarrow> \<not> P x \<Longrightarrow> dropWhile P (xs @ ys) = dropWhile P xs @ ys"
  by (induction xs) auto

lemma last_dropWhile: "dropWhile P xs \<noteq> [] \<Longrightarrow> last (dropWhile P xs) = last xs"
  by (induction xs) (auto split: if_splits)

lemma consolidate_append:
  "pre = [] \<or> \<not> is_del (last pre) \<Longrightarrow> rest = [] \<or> is_del (hd rest) \<Longrightarrow>
   consolidate left right (pre @ rest) = consolidate left right pre @ consolidate left right rest"
proof (induction "length pre" arbitrary: pre rule: less_induct)
  case less
  show ?case
  proof (cases pre)
    case Nil
    then show ?thesis by simp
  next
    case (Cons e es)
    show ?thesis
    proof (cases "rest = []")
      case True
      then show ?thesis by simp
    next
      case False
      with less.prems have hr: "is_del (hd rest)" "\<not> is_ins (hd rest)"
        by (simp_all add: is_del_not_ins)
      have lp: "\<not> is_del (last pre)" using less.prems Cons by simp
      have lpin: "last pre \<in> set pre" using Cons by simp
      show ?thesis
      proof (cases "etype e")
        case TEqual
        have "es = [] \<or> \<not> is_del (last es)" using lp Cons by (cases es) auto
        from less.hyps [OF _ this less.prems(2)] Cons TEqual show ?thesis by simp
      next
        case TDelete
        let ?D = "takeWhile is_del pre" and ?R1 = "dropWhile is_del pre"
        have t1: "takeWhile is_del (pre @ rest) = ?D" and d1: "dropWhile is_del (pre @ rest) = ?R1 @ rest"
          using lpin lp by (rule takeWhile_stops, rule dropWhile_stops)
        have R1: "?R1 \<noteq> []" using lpin lp by (metis dropWhile_eq_Nil_conv)
        have len1: "length ?R1 \<le> length es"
          using Cons TDelete length_dropWhile_le [of is_del es] by (simp add: is_del_def)
        have unf: "consolidate left right (pre @ rest) =
            block_hunks left right ?D (takeWhile is_ins (?R1 @ rest)) @
            consolidate left right (dropWhile is_ins (?R1 @ rest))"
          using TDelete t1 d1 unfolding Cons by (simp add: Let_def del: takeWhile.simps dropWhile.simps)
        have unf0: "consolidate left right pre =
            block_hunks left right ?D (takeWhile is_ins ?R1) @
            consolidate left right (dropWhile is_ins ?R1)"
          using TDelete unfolding Cons by (simp add: Let_def del: takeWhile.simps dropWhile.simps)
        show ?thesis
        proof (cases "\<forall>x\<in>set ?R1. is_ins x")
          case True
          have nr: "rest = [] \<or> \<not> is_ins (hd rest)" using hr by simp
          have a: "takeWhile is_ins (?R1 @ rest) = ?R1" "dropWhile is_ins (?R1 @ rest) = rest"
            using True nr by (rule takeWhile_all, rule dropWhile_all)
          have b: "takeWhile is_ins ?R1 = ?R1" "dropWhile is_ins ?R1 = []"
            using True by simp_all
          show ?thesis unfolding unf unf0 a b by simp
        next
          case F: False
          then obtain x where x: "x \<in> set ?R1" "\<not> is_ins x" by blast
          let ?R2 = "dropWhile is_ins ?R1"
          have t2: "takeWhile is_ins (?R1 @ rest) = takeWhile is_ins ?R1"
            and d2: "dropWhile is_ins (?R1 @ rest) = ?R2 @ rest"
            using x by (rule takeWhile_stops, rule dropWhile_stops)
          have R2: "?R2 \<noteq> []" using x by (metis dropWhile_eq_Nil_conv)
          have "last ?R2 = last pre" using R2 R1 by (simp add: last_dropWhile)
          then have c: "?R2 = [] \<or> \<not> is_del (last ?R2)" using lp by simp
          have "length ?R2 < length pre"
            using len1 length_dropWhile_le [of is_ins ?R1] Cons by simp
          from less.hyps [OF this c less.prems(2)] show ?thesis
            unfolding unf unf0 t2 d2 by simp
        qed
      next
        case TInsert
        let ?R = "dropWhile is_ins pre"
        have ie: "is_ins e" using TInsert by (simp add: is_ins_def)
        have unf0: "consolidate left right pre =
            map (added_hunk right) (takeWhile is_ins pre) @ consolidate left right ?R"
          using TInsert unfolding Cons by (simp add: Let_def del: takeWhile.simps dropWhile.simps)
        have unf: "consolidate left right (pre @ rest) =
            map (added_hunk right) (takeWhile is_ins (pre @ rest)) @
            consolidate left right (dropWhile is_ins (pre @ rest))"
          using TInsert unfolding Cons by (simp add: Let_def del: takeWhile.simps dropWhile.simps)
        show ?thesis
        proof (cases "\<forall>x\<in>set pre. is_ins x")
          case True
          have nr: "rest = [] \<or> \<not> is_ins (hd rest)" using hr by simp
          have a: "takeWhile is_ins (pre @ rest) = pre" "dropWhile is_ins (pre @ rest) = rest"
            using True nr by (rule takeWhile_all, rule dropWhile_all)
          have b: "takeWhile is_ins pre = pre" "dropWhile is_ins pre = []"
            using True by simp_all
          show ?thesis unfolding unf unf0 a b by simp
        next
          case F: False
          then obtain x where x: "x \<in> set pre" "\<not> is_ins x" by blast
          have t2: "takeWhile is_ins (pre @ rest) = takeWhile is_ins pre"
            and d2: "dropWhile is_ins (pre @ rest) = ?R @ rest"
            using x by (rule takeWhile_stops, rule dropWhile_stops)
          have R: "?R \<noteq> []" using x by (metis dropWhile_eq_Nil_conv)
          have "last ?R = last pre" using R by (simp add: last_dropWhile)
          then have c: "?R = [] \<or> \<not> is_del (last ?R)" using lp by simp
          have "length ?R < length pre"
            using ie length_dropWhile_le [of is_ins es] Cons by simp
          from less.hyps [OF this c less.prems(2)] show ?thesis
            unfolding unf unf0 t2 d2 by simp
        qed
      qed
    qed
  qed
qed

lemma left_side_append [simp]: "left_side (hs @ hs') = left_side hs @ left_side hs'"
  by (simp add: left_side_def)

lemma right_side_append [simp]: "right_side (hs @ hs') = right_side hs @ right_side hs'"
  by (simp add: right_side_def)

lemma left_side_paired:
  "left_side (paired_hunks left right dels ins) = map (\<lambda>e. (li e, [lookup left (li e)])) dels"
proof -
  let ?c = "min (length dels) (length ins)"
  have "map (\<lambda>j. (li (dels ! j), [lookup left (li (dels ! j))])) [0 ..< ?c] =
        map (\<lambda>e. (li e, [lookup left (li e)])) (take ?c dels)"
    by (rule nth_equalityI) simp_all
  then have "left_side (paired_hunks left right dels ins) =
      map (\<lambda>e. (li e, [lookup left (li e)])) (take ?c dels) @
      map (\<lambda>e. (li e, [lookup left (li e)])) (drop ?c dels)"
    by (simp add: left_side_def paired_hunks_def Let_def changed_hunk_def removed_hunk_def
        added_hunk_def filter_map comp_def)
  then show ?thesis by (simp flip: map_append)
qed

lemma right_side_paired:
  "right_side (paired_hunks left right dels ins) = map (\<lambda>e. (ri e, [lookup right (ri e)])) ins"
proof -
  let ?c = "min (length dels) (length ins)"
  have "map (\<lambda>j. (ri (ins ! j), [lookup right (ri (ins ! j))])) [0 ..< ?c] =
        map (\<lambda>e. (ri e, [lookup right (ri e)])) (take ?c ins)"
    by (rule nth_equalityI) simp_all
  then have "right_side (paired_hunks left right dels ins) =
      map (\<lambda>e. (ri e, [lookup right (ri e)])) (take ?c ins) @
      map (\<lambda>e. (ri e, [lookup right (ri e)])) (drop ?c ins)"
    by (simp add: right_side_def paired_hunks_def Let_def changed_hunk_def removed_hunk_def
        added_hunk_def filter_map comp_def)
  then show ?thesis by (simp flip: map_append)
qed

lemma filter_takeWhile_not: "(\<And>x. P x \<Longrightarrow> \<not> Q x) \<Longrightarrow> filter Q (takeWhile P xs) = []"
  by (induction xs) auto

lemma filter_takeWhile_all: "(\<And>x. P x \<Longrightarrow> Q x) \<Longrightarrow> filter Q (takeWhile P xs) = takeWhile P xs"
  by (induction xs) auto

lemma filter_split: "filter Q xs = filter Q (takeWhile P xs) @ filter Q (dropWhile P xs)"
  by (metis filter_append takeWhile_dropWhile_id)

lemma left_side_consolidate:
  "left_side (consolidate left right es) =
     map (\<lambda>e. (li e, [lookup left (li e)])) (filter (\<lambda>e. \<not> is_ins e) es)"
proof (induction left right es rule: consolidate.induct)
  case (1 left right)
  then show ?case by (simp add: left_side_def)
next
  case (2 left right e es)
  show ?case
  proof (cases "etype e")
    case TEqual
    with 2(1) show ?thesis
      by (simp add: left_side_def equal_hunk_def is_ins_def)
  next
    case TDelete
    let ?D = "takeWhile is_del (e # es)" and ?R1 = "dropWhile is_del (e # es)"
    let ?I = "takeWhile is_ins ?R1" and ?R2 = "dropWhile is_ins ?R1"
    have IH: "left_side (consolidate left right ?R2) =
        map (\<lambda>e. (li e, [lookup left (li e)])) (filter (\<lambda>e. \<not> is_ins e) ?R2)"
      using TDelete by (intro 2(2)) simp_all
    have unf: "consolidate left right (e # es) =
        paired_hunks left right ?D ?I @ consolidate left right ?R2"
      using TDelete by (simp add: Let_def block_hunks_paired del: takeWhile.simps dropWhile.simps)
    have "filter (\<lambda>e. \<not> is_ins e) (e # es) = ?D @ filter (\<lambda>e. \<not> is_ins e) ?R2"
      unfolding filter_split [of _ "e # es" is_del] filter_split [of _ ?R1 is_ins]
      by (simp add: filter_takeWhile_not filter_takeWhile_all is_del_not_ins
          del: takeWhile.simps dropWhile.simps)
    then show ?thesis
      unfolding unf by (simp add: left_side_paired IH del: takeWhile.simps dropWhile.simps consolidate.simps)
  next
    case TInsert
    let ?I = "takeWhile is_ins (e # es)" and ?R = "dropWhile is_ins (e # es)"
    have IH: "left_side (consolidate left right ?R) =
        map (\<lambda>e. (li e, [lookup left (li e)])) (filter (\<lambda>e. \<not> is_ins e) ?R)"
      using TInsert by (intro 2(3)) simp_all
    have unf: "consolidate left right (e # es) =
        map (added_hunk right) ?I @ consolidate left right ?R"
      using TInsert by (simp add: Let_def del: takeWhile.simps dropWhile.simps)
    have "filter (\<lambda>e. \<not> is_ins e) (e # es) = filter (\<lambda>e. \<not> is_ins e) ?R"
      unfolding filter_split [of _ "e # es" is_ins]
      by (simp add: filter_takeWhile_not del: takeWhile.simps dropWhile.simps)
    moreover have "left_side (map (added_hunk right) ?I) = []"
      by (simp add: left_side_def added_hunk_def filter_map comp_def del: takeWhile.simps)
    ultimately show ?thesis
      unfolding unf by (simp add: IH del: takeWhile.simps dropWhile.simps consolidate.simps)
  qed
qed

lemma right_side_consolidate:
  "right_side (consolidate left right es) =
     map (\<lambda>e. (ri e, [lookup right (ri e)])) (filter (\<lambda>e. \<not> is_del e) es)"
proof (induction left right es rule: consolidate.induct)
  case (1 left right)
  then show ?case by (simp add: right_side_def)
next
  case (2 left right e es)
  show ?case
  proof (cases "etype e")
    case TEqual
    with 2(1) show ?thesis
      by (simp add: right_side_def equal_hunk_def is_del_def)
  next
    case TDelete
    let ?D = "takeWhile is_del (e # es)" and ?R1 = "dropWhile is_del (e # es)"
    let ?I = "takeWhile is_ins ?R1" and ?R2 = "dropWhile is_ins ?R1"
    have IH: "right_side (consolidate left right ?R2) =
        map (\<lambda>e. (ri e, [lookup right (ri e)])) (filter (\<lambda>e. \<not> is_del e) ?R2)"
      using TDelete by (intro 2(2)) simp_all
    have unf: "consolidate left right (e # es) =
        paired_hunks left right ?D ?I @ consolidate left right ?R2"
      using TDelete by (simp add: Let_def block_hunks_paired del: takeWhile.simps dropWhile.simps)
    have "\<And>x. is_ins x \<Longrightarrow> \<not> is_del x" using is_del_not_ins by blast
    then have "filter (\<lambda>e. \<not> is_del e) (e # es) = ?I @ filter (\<lambda>e. \<not> is_del e) ?R2"
      unfolding filter_split [of _ "e # es" is_del] filter_split [of _ ?R1 is_ins]
      by (simp add: filter_takeWhile_not filter_takeWhile_all
          del: takeWhile.simps dropWhile.simps)
    then show ?thesis
      unfolding unf by (simp add: right_side_paired IH del: takeWhile.simps dropWhile.simps consolidate.simps)
  next
    case TInsert
    let ?I = "takeWhile is_ins (e # es)" and ?R = "dropWhile is_ins (e # es)"
    have IH: "right_side (consolidate left right ?R) =
        map (\<lambda>e. (ri e, [lookup right (ri e)])) (filter (\<lambda>e. \<not> is_del e) ?R)"
      using TInsert by (intro 2(3)) simp_all
    have unf: "consolidate left right (e # es) =
        map (added_hunk right) ?I @ consolidate left right ?R"
      using TInsert by (simp add: Let_def del: takeWhile.simps dropWhile.simps)
    have "\<And>x. is_ins x \<Longrightarrow> \<not> is_del x" using is_del_not_ins by blast
    then have "filter (\<lambda>e. \<not> is_del e) (e # es) = ?I @ filter (\<lambda>e. \<not> is_del e) ?R"
      unfolding filter_split [of _ "e # es" is_ins]
      by (simp add: filter_takeWhile_all del: takeWhile.simps dropWhile.simps)
    moreover have "right_side (map (added_hunk right) ?I) = map (\<lambda>e. (ri e, [lookup right (ri e)])) ?I"
      by (simp add: right_side_def added_hunk_def filter_map comp_def del: takeWhile.simps)
    ultimately show ?thesis
      unfolding unf by (simp add: IH del: takeWhile.simps dropWhile.simps consolidate.simps)
  qed
qed

section \<open>The edit graph and the furthest-reaching points\<close>

lemma snake_unfold:
  "snake a b x y = (if match_at a b (x - y) x then snake a b (x + 1) (y + 1) else (x, y))"
  by (subst snake.simps) (simp add: match_at_def)

lemma snake_diag: "snd (snake a b x y) = fst (snake a b x y) - (x - y) \<and> x \<le> fst (snake a b x y)"
proof (induction a b x y rule: snake.induct)
  case (1 a b x y)
  show ?case
  proof (cases "match_at a b (x - y) x")
    case True
    then have "x < int (length a) \<and> y < int (length b) \<and> lookup a x = lookup b y"
      by (simp add: match_at_def)
    from 1 [OF this] True show ?thesis by (subst (1 2 3) snake_unfold) simp
  next
    case False
    then show ?thesis by (subst (1 2 3) snake_unfold) simp
  qed
qed

lemma snake_matches:
  "x \<le> i \<Longrightarrow> i < fst (snake a b x y) \<Longrightarrow> match_at a b (x - y) i"
proof (induction a b x y rule: snake.induct)
  case (1 a b x y)
  show ?case
  proof (cases "match_at a b (x - y) x")
    case True
    then have c: "x < int (length a) \<and> y < int (length b) \<and> lookup a x = lookup b y"
      by (simp add: match_at_def)
    show ?thesis
    proof (cases "i = x")
      case True
      with \<open>match_at a b (x - y) x\<close> show ?thesis by simp
    next
      case False
      have "i < fst (snake a b (x + 1) (y + 1))"
        using "1.prems"(2) True by (subst (asm) snake_unfold) simp
      with "1.IH" [OF c] "1.prems"(1) False show ?thesis by simp
    qed
  next
    case False
    with "1.prems" show ?thesis by (subst (asm) snake_unfold) simp
  qed
qed

lemma snake_stop: "\<not> match_at a b (x - y) (fst (snake a b x y))"
proof (induction a b x y rule: snake.induct)
  case (1 a b x y)
  show ?case
  proof (cases "match_at a b (x - y) x")
    case True
    then have c: "x < int (length a) \<and> y < int (length b) \<and> lookup a x = lookup b y"
      by (simp add: match_at_def)
    from 1 [OF c] True show ?thesis by (subst snake_unfold) simp
  next
    case False
    then show ?thesis by (subst snake_unfold) simp
  qed
qed

lemma snake_ge:
  assumes "\<forall>i. x \<le> i \<and> i < z \<longrightarrow> match_at a b (x - y) i"
  shows "z \<le> fst (snake a b x y)"
proof (rule ccontr)
  assume "\<not> z \<le> fst (snake a b x y)"
  then have "x \<le> fst (snake a b x y) \<and> fst (snake a b x y) < z"
    using snake_diag [of a b x y] by simp
  with assms have "match_at a b (x - y) (fst (snake a b x y))" by blast
  with snake_stop show False by blast
qed

lemma snake_reach: "reach a b d x y \<Longrightarrow> reach a b d (fst (snake a b x y)) (snd (snake a b x y))"
proof (induction a b x y rule: snake.induct)
  case (1 a b x y)
  show ?case
  proof (cases "match_at a b (x - y) x")
    case True
    then have c: "x < int (length a) \<and> y < int (length b) \<and> lookup a x = lookup b y"
      by (simp add: match_at_def)
    have "reach a b d (x + 1) (y + 1)" using 1(2) True by (rule reach.diag)
    from 1(1) [OF c this] True show ?thesis by (subst (1 2) snake_unfold) simp
  next
    case False
    with 1(2) show ?thesis by (subst (1 2) snake_unfold) simp
  qed
qed

lemma reach_bounds:
  "reach a b d x y \<Longrightarrow> 0 \<le> x \<and> 0 \<le> y \<and> 0 \<le> d \<and> \<bar>x - y\<bar> \<le> d \<and> even (d - (x - y)) \<and> d \<le> x + y"
  by (induction rule: reach.induct) auto

text \<open>
  Every value that the search stores in \<open>V\<close> is the \<open>x\<close> of a point reached in at most
  \<open>n + m\<close> rounds, hence between \<open>0\<close> and \<open>2 * n + m\<close>: the 32-bit elements of the array
  hold it unchanged.
\<close>

lemma reach_x_bound: "reach a b d x y \<Longrightarrow> 0 \<le> d \<and> 0 \<le> x \<and> x \<le> int (length a) + d"
  by (induction rule: reach.induct) (auto simp: match_at_def)

lemma reach_decompose:
  "reach a b d x y \<Longrightarrow> d > 0 \<Longrightarrow>
   \<exists>x0. x0 \<le> x \<and> (\<forall>i. x0 \<le> i \<and> i < x \<longrightarrow> match_at a b (x - y) i) \<and>
        (reach a b (d - 1) (x0 - 1) (x0 - (x - y)) \<or> reach a b (d - 1) x0 (x0 - (x - y) - 1))"
proof (induction rule: reach.induct)
  case start
  then show ?case by simp
next
  case (diag d x y)
  then obtain x0 where x0: "x0 \<le> x" "\<forall>i. x0 \<le> i \<and> i < x \<longrightarrow> match_at a b (x - y) i"
    "reach a b (d - 1) (x0 - 1) (x0 - (x - y)) \<or> reach a b (d - 1) x0 (x0 - (x - y) - 1)"
    by blast
  have "\<forall>i. x0 \<le> i \<and> i < x + 1 \<longrightarrow> match_at a b (x - y) i"
  proof (intro allI impI)
    fix i assume "x0 \<le> i \<and> i < x + 1"
    then consider "i < x" "x0 \<le> i" | "i = x" by linarith
    then show "match_at a b (x - y) i" using x0(2) diag.hyps(2) by cases auto
  qed
  with x0(1,3) show ?case by (intro exI [of _ x0]) auto
next
  case (right d x y)
  then show ?case by (intro exI [of _ "x + 1"]) auto
next
  case (down d x y)
  have "x - (x - (y + 1)) - 1 = y" by simp
  with down show ?case by (intro exI [of _ x]) auto
qed

lemma furthest_unique: "furthest a b d k x \<Longrightarrow> furthest a b d k x' \<Longrightarrow> x = x'"
  by (meson furthest_def order_antisym)

lemma furthest_base: "furthest a b 0 0 (fst (snake a b 0 0))"
proof -
  have r: "reach a b 0 (fst (snake a b 0 0)) (snd (snake a b 0 0))"
    by (rule snake_reach) (rule reach.start)
  have "x' \<le> fst (snake a b 0 0)" if "reach a b 0 x' y'" for x' y'
  proof -
    have "reach a b d x' y' \<Longrightarrow> d = 0 \<Longrightarrow> x' = y' \<and> (\<forall>i. 0 \<le> i \<and> i < x' \<longrightarrow> match_at a b 0 i)" for d
    proof (induction rule: reach.induct)
      case (diag d x y)
      then show ?case by (auto simp: less_le)
    next
      case (right d x y)
      then show ?case using reach_bounds [of a b d x y] by simp
    next
      case (down d x y)
      then show ?case using reach_bounds [of a b d x y] by simp
    qed auto
    with that have "\<forall>i. 0 \<le> i \<and> i < x' \<longrightarrow> match_at a b (0 - 0) i" by simp
    then show ?thesis by (rule snake_ge)
  qed
  with r show ?thesis using snake_diag [of a b 0 0] by (simp add: furthest_def)
qed

lemma furthest_from_start:
  assumes r: "reach a b d x0 (x0 - k)"
    and m: "\<And>x1. reach a b (d - 1) (x1 - 1) (x1 - k) \<or> reach a b (d - 1) x1 (x1 - k - 1) \<Longrightarrow> x1 \<le> x0"
    and d: "d > 0"
  shows "furthest a b d k (fst (snake a b x0 (x0 - k)))"
proof -
  let ?x = "fst (snake a b x0 (x0 - k))"
  have sd: "snd (snake a b x0 (x0 - k)) = ?x - k"
    using snake_diag [of a b x0 "x0 - k"] by simp
  have "reach a b d ?x (?x - k)"
    using snake_reach [OF r] sd by simp
  moreover have "x' \<le> ?x" if "reach a b d x' (x' - k)" for x'
  proof -
    from reach_decompose [OF that d]
    obtain x1 where x1: "x1 \<le> x'" "\<forall>i. x1 \<le> i \<and> i < x' \<longrightarrow> match_at a b k i"
      "reach a b (d - 1) (x1 - 1) (x1 - k) \<or> reach a b (d - 1) x1 (x1 - k - 1)"
      by auto
    from m [OF x1(3)] have "x1 \<le> x0" .
    with x1(2) have "\<forall>i. x0 \<le> i \<and> i < x' \<longrightarrow> match_at a b (x0 - (x0 - k)) i" by simp
    then show ?thesis by (rule snake_ge)
  qed
  ultimately show ?thesis by (simp add: furthest_def)
qed

lemma parity_lower: "even (d - k) \<Longrightarrow> k \<noteq> - d \<Longrightarrow> - d \<le> k \<Longrightarrow> - d + 2 \<le> (k::int)"
  by presburger

lemma parity_upper: "even (d - k) \<Longrightarrow> k \<noteq> d \<Longrightarrow> k \<le> d \<Longrightarrow> k + 2 \<le> (d::int)"
  by presburger

lemma furthest_step:
  assumes p: "prev_ok a b mx d V" and k: "\<bar>k\<bar> \<le> d" "even (d - k)"
  shows "furthest a b d k (fst (snake a b (start_x mx d k V) (start_x mx d k V - k)))"
proof (cases "d = 0")
  case True
  with k have k0: "k = 0" by simp
  with True p have "start_x mx d k V = 0" by (simp add: start_x_def prev_ok_def add.commute)
  with True k0 show ?thesis using furthest_base [of a b] by simp
next
  case False
  with k have d: "d > 0" by simp
  let ?vm = "V ! nat (k + mx - 1)" and ?vp = "V ! nat (k + mx + 1)"
  have fm: "furthest a b (d - 1) (k - 1) ?vm" if "k \<noteq> - d"
  proof -
    have "- d + 2 \<le> k" using parity_lower [OF k(2) that] k(1) by simp
    then have "\<bar>k - 1\<bar> \<le> d - 1 \<and> even (d - 1 - (k - 1))" using k by auto
    with p False have "furthest a b (d - 1) (k - 1) (V ! nat (k - 1 + mx))"
      unfolding prev_ok_def by auto
    moreover have "k - 1 + mx = k + mx - 1" by simp
    ultimately show ?thesis by simp
  qed
  have fp: "furthest a b (d - 1) (k + 1) ?vp" if "k \<noteq> d"
  proof -
    have "k + 2 \<le> d" using parity_upper [OF k(2) that] k(1) by simp
    then have "\<bar>k + 1\<bar> \<le> d - 1 \<and> even (d - 1 - (k + 1))" using k by auto
    with p False have "furthest a b (d - 1) (k + 1) (V ! nat (k + 1 + mx))"
      unfolding prev_ok_def by auto
    moreover have "k + 1 + mx = k + mx + 1" by simp
    ultimately show ?thesis by simp
  qed
  have nom: "\<not> reach a b (d - 1) (x1 - 1) (x1 - k)" if "k = - d" for x1
    using reach_bounds [of a b "d - 1" "x1 - 1" "x1 - k"] that d by auto
  have nop: "\<not> reach a b (d - 1) x1 (x1 - k - 1)" if "k = d" for x1
    using reach_bounds [of a b "d - 1" x1 "x1 - k - 1"] that d by auto
  have lem: "x1 - 1 \<le> ?vm" if "reach a b (d - 1) (x1 - 1) (x1 - k)" for x1
  proof -
    have "k \<noteq> - d" using nom that by blast
    from fm [OF this] that show ?thesis by (simp add: furthest_def)
  qed
  have lep: "x1 \<le> ?vp" if "reach a b (d - 1) x1 (x1 - k - 1)" for x1
  proof -
    have "k \<noteq> d" using nop that by blast
    from fp [OF this] that have "reach a b (d - 1) x1 (x1 - (k + 1)) \<longrightarrow> x1 \<le> ?vp"
      by (simp add: furthest_def)
    moreover have "x1 - (k + 1) = x1 - k - 1" by simp
    ultimately show ?thesis using that by simp
  qed
  show ?thesis
  proof (cases "k = - d \<or> (k \<noteq> d \<and> ?vm < ?vp)")
    case True
    then have sx: "start_x mx d k V = ?vp" unfolding start_x_def by auto
    from True d have "k \<noteq> d" by auto
    from fp [OF this] have "reach a b (d - 1) ?vp (?vp - (k + 1))" by (simp add: furthest_def)
    from reach.down [OF this] have r: "reach a b d ?vp (?vp - k)"
      by (simp add: algebra_simps)
    have "x1 \<le> ?vp"
      if "reach a b (d - 1) (x1 - 1) (x1 - k) \<or> reach a b (d - 1) x1 (x1 - k - 1)" for x1
      using that
    proof
      assume a: "reach a b (d - 1) (x1 - 1) (x1 - k)"
      then have "k \<noteq> - d" using nom by blast
      with True have "?vm < ?vp" by simp
      with lem [OF a] show ?thesis by simp
    next
      assume "reach a b (d - 1) x1 (x1 - k - 1)"
      then show ?thesis by (rule lep)
    qed
    from furthest_from_start [OF r this d] show ?thesis unfolding sx .
  next
    case False
    then have sx: "start_x mx d k V = ?vm + 1" unfolding start_x_def by auto
    from False have kd: "k \<noteq> - d" by simp
    from fm [OF this] have "reach a b (d - 1) ?vm (?vm - (k - 1))" by (simp add: furthest_def)
    from reach.right [OF this] have r: "reach a b d (?vm + 1) (?vm + 1 - k)"
      by (simp add: algebra_simps)
    have "x1 \<le> ?vm + 1"
      if "reach a b (d - 1) (x1 - 1) (x1 - k) \<or> reach a b (d - 1) x1 (x1 - k - 1)" for x1
      using that
    proof
      assume "reach a b (d - 1) (x1 - 1) (x1 - k)"
      from lem [OF this] show ?thesis by simp
    next
      assume a: "reach a b (d - 1) x1 (x1 - k - 1)"
      then have "k \<noteq> d" using nop by blast
      with False kd have "?vp \<le> ?vm" by simp
      with lep [OF a] show ?thesis by simp
    qed
    from furthest_from_start [OF r this d] show ?thesis unfolding sx .
  qed
qed

section \<open>The forward pass\<close>

lemma reach_clamp:
  "reach a b d x y \<Longrightarrow>
   reach a b (d - (x - min x (int (length a))) - (y - min y (int (length b))))
     (min x (int (length a))) (min y (int (length b)))"
proof (induction rule: reach.induct)
  case start
  show ?case using reach.start [of a b] by simp
next
  case (diag d x y)
  then have "x < int (length a)" "y < int (length b)" by (simp_all add: match_at_def)
  then show ?case using reach.diag [OF diag.hyps] by simp
next
  case (right d x y)
  define cy where "cy = min y (int (length b))"
  define e where "e = d - (y - cy)"
  show ?case
  proof (cases "x < int (length a)")
    case True
    then have m: "min x (int (length a)) = x" "min (x + 1) (int (length a)) = x + 1" by simp_all
    from right.IH have "reach a b e x cy" unfolding m cy_def e_def by simp
    from reach.right [OF this] have r: "reach a b (e + 1) (x + 1) cy" .
    have eq: "d + 1 - (x + 1 - (x + 1)) - (y - cy) = e + 1" by (simp add: e_def)
    show ?thesis unfolding m cy_def [symmetric] eq by (rule r)
  next
    case False
    then have m: "min x (int (length a)) = int (length a)" "min (x + 1) (int (length a)) = int (length a)"
      by simp_all
    have eq: "d + 1 - (x + 1 - int (length a)) - (y - cy) = d - (x - int (length a)) - (y - cy)" by simp
    show ?thesis unfolding m cy_def [symmetric] eq
      using right.IH [unfolded m cy_def [symmetric]] .
  qed
next
  case (down d x y)
  define cx where "cx = min x (int (length a))"
  define e where "e = d - (x - cx)"
  show ?case
  proof (cases "y < int (length b)")
    case True
    then have m: "min y (int (length b)) = y" "min (y + 1) (int (length b)) = y + 1" by simp_all
    from down.IH have "reach a b e cx y" unfolding m cx_def e_def by simp
    from reach.down [OF this] have r: "reach a b (e + 1) cx (y + 1)" .
    have eq: "d + 1 - (x - cx) - (y + 1 - (y + 1)) = e + 1" by (simp add: e_def)
    show ?thesis unfolding m cx_def [symmetric] eq by (rule r)
  next
    case False
    then have m: "min y (int (length b)) = int (length b)" "min (y + 1) (int (length b)) = int (length b)"
      by simp_all
    have eq: "d + 1 - (x - cx) - (y + 1 - int (length b)) = d - (x - cx) - (y - int (length b))" by simp
    show ?thesis unfolding m cx_def [symmetric] eq
      using down.IH [unfolded m cx_def [symmetric]] .
  qed
qed

lemma reach_target:
  assumes "reach a b d x y" and "int (length a) \<le> x" and "int (length b) \<le> y"
  shows "reach a b (d - (x - int (length a)) - (y - int (length b))) (int (length a)) (int (length b))"
proof -
  have "min x (int (length a)) = int (length a)" "min y (int (length b)) = int (length b)"
    using assms(2,3) by simp_all
  with reach_clamp [OF assms(1)] show ?thesis by simp
qed

lemma reach_any: "reach a b (int i + int j) (int i) (int j)"
proof (induction j)
  case 0
  show ?case
  proof (induction i)
    case 0
    show ?case using reach.start [of a b] by simp
  next
    case (Suc i)
    from reach.right [OF Suc] show ?case by (simp add: algebra_simps)
  qed
next
  case (Suc j)
  from reach.down [OF Suc] show ?case by (simp add: algebra_simps)
qed

lemma reach_corner: "reach a b (int (length a) + int (length b)) (int (length a)) (int (length b))"
  by (rule reach_any)

lemma kloop_done: "\<not> k \<le> d \<Longrightarrow> kloop a b d k V = (V, False)"
  by (subst kloop.simps) simp

lemma kloop_step:
  assumes "mx = int (length a) + int (length b)" and "k \<le> d"
    and "x = fst (snake a b (start_x mx d k V) (start_x mx d k V - k))"
  shows "kloop a b d k V =
           (if int (length a) \<le> x \<and> int (length b) \<le> x - k then (V[nat (k + mx) := x], True)
            else kloop a b d (k + 2) (V[nat (k + mx) := x]))"
proof -
  have sd: "snd (snake a b x0 (x0 - k)) = fst (snake a b x0 (x0 - k)) - k" for x0
    using snake_diag [of a b x0 "x0 - k"] by simp
  show ?thesis
    using assms(2) unfolding assms(1,3)
    by (subst kloop.simps) (simp add: Let_def start_x_def sd)
qed

lemma prev_ok_update:
  assumes "prev_ok a b mx d V" and "0 \<le> k + mx" and "even (d - k)" and "d \<le> mx"
  shows "prev_ok a b mx d (V[nat (k + mx) := x])"
proof (cases "d = 0")
  case True
  with assms(3) have "k \<noteq> 1" by auto
  then have "nat (k + mx) \<noteq> nat (mx + 1)" using assms(2,4) True by (simp add: nat_eq_iff)
  with assms(1) True show ?thesis by (simp add: prev_ok_def)
next
  case False
  have ne: "nat (j + mx) \<noteq> nat (k + mx)" if "\<bar>j\<bar> \<le> d - 1" "even (d - 1 - j)" for j
  proof -
    have "j \<noteq> k" using that(2) assms(3) by presburger
    moreover have "0 \<le> j + mx" using that(1) assms(4) by linarith
    ultimately show ?thesis using assms(2) by (simp add: nat_eq_iff)
  qed
  have "V[nat (k + mx) := x] ! nat (j + mx) = V ! nat (j + mx)"
    if h: "\<bar>j\<bar> \<le> d - 1 \<and> even (d - 1 - j)" for j
  proof -
    from h have "\<bar>j\<bar> \<le> d - 1" "even (d - 1 - j)" by blast+
    from ne [OF this] show ?thesis by (metis nth_list_update_neq)
  qed
  moreover have "\<forall>j. \<bar>j\<bar> \<le> d - 1 \<and> even (d - 1 - j) \<longrightarrow> furthest a b (d - 1) j (V ! nat (j + mx))"
    using assms(1) False unfolding prev_ok_def by (simp only: if_False)
  ultimately have "\<forall>j. \<bar>j\<bar> \<le> d - 1 \<and> even (d - 1 - j) \<longrightarrow>
      furthest a b (d - 1) j (V[nat (k + mx) := x] ! nat (j + mx))"
    by metis
  then show ?thesis using False unfolding prev_ok_def by (simp only: if_False)
qed

lemma kloop_spec:
  assumes len: "length V = nat (2 * mx + 1)" and mx: "mx = int (length a) + int (length b)"
    and d: "0 \<le> d" "d \<le> mx"
    and k: "- d \<le> k" "even (d - k)"
    and p: "prev_ok a b mx d V" and c: "cur_ok a b mx d k V"
    and e: "\<forall>d'. d' < d \<longrightarrow> \<not> reach a b d' (int (length a)) (int (length b))"
  shows "length (fst (kloop a b d k V)) = length V \<and>
         (if snd (kloop a b d k V)
          then furthest a b d (int (length a) - int (length b)) (int (length a))
          else prev_ok a b mx (d + 1) (fst (kloop a b d k V)) \<and>
               \<not> reach a b d (int (length a)) (int (length b)))"
  using len k p c
proof (induction "nat (d + 2 - k)" arbitrary: k V rule: less_induct)
  case less
  let ?N = "int (length a)" and ?M = "int (length b)"
  show ?case
  proof (cases "k \<le> d")
    case False
    then have kl: "kloop a b d k V = (V, False)" by (rule kloop_done)
    have all: "furthest a b d j (V ! nat (j + mx)) \<and> \<not> (?N \<le> V ! nat (j + mx) \<and> ?M \<le> V ! nat (j + mx) - j)"
      if "\<bar>j\<bar> \<le> d" "even (d - j)" for j
    proof -
      have "- d \<le> j \<and> j < k \<and> even (d - j)" using that False by linarith
      with less.prems(5) show ?thesis unfolding cur_ok_def by blast
    qed
    have "prev_ok a b mx (d + 1) V"
      using all d unfolding prev_ok_def by simp
    moreover have "\<not> reach a b d ?N ?M"
    proof
      assume r: "reach a b d ?N ?M"
      from reach_bounds [OF r] have j: "\<bar>?N - ?M\<bar> \<le> d" "even (d - (?N - ?M))" by simp_all
      from all [OF j] have f: "furthest a b d (?N - ?M) (V ! nat (?N - ?M + mx))"
        and n: "\<not> (?N \<le> V ! nat (?N - ?M + mx) \<and> ?M \<le> V ! nat (?N - ?M + mx) - (?N - ?M))"
        by simp_all
      from f r have "?N \<le> V ! nat (?N - ?M + mx)" by (simp add: furthest_def)
      with n show False by simp
    qed
    ultimately show ?thesis using kl by simp
  next
    case True
    let ?x = "fst (snake a b (start_x mx d k V) (start_x mx d k V - k))"
    let ?V = "V[nat (k + mx) := ?x]"
    have kabs: "\<bar>k\<bar> \<le> d" using True less.prems(2) by simp
    have fx: "furthest a b d k ?x"
      using less.prems(4) kabs less.prems(3) by (rule furthest_step)
    have idx: "0 \<le> k + mx" "nat (k + mx) < length V"
      using kabs d less.prems(1) by auto
    show ?thesis
    proof (cases "?x \<ge> ?N \<and> ?x - k \<ge> ?M")
      case found: True
      have kl: "kloop a b d k V = (?V, True)"
        unfolding kloop_step [OF mx True refl, of V] using found by (rule if_P)
      from fx have r: "reach a b d ?x (?x - k)" by (simp add: furthest_def)
      from reach_target [OF r] found
      have "reach a b (d - (?x - ?N) - (?x - k - ?M)) ?N ?M" by simp
      with e have "\<not> d - (?x - ?N) - (?x - k - ?M) < d" by blast
      with found have "?x = ?N" "?x - k = ?M" by simp_all
      then have "k = ?N - ?M" by simp
      with fx \<open>?x = ?N\<close> have "furthest a b d (?N - ?M) ?N" by simp
      with kl show ?thesis by simp
    next
      case nf: False
      have kl: "kloop a b d k V = kloop a b d (k + 2) ?V"
        unfolding kloop_step [OF mx True refl, of V] using nf by (rule if_not_P)
      have c': "cur_ok a b mx d (k + 2) ?V"
        unfolding cur_ok_def
      proof (intro allI impI)
        fix j assume j: "- d \<le> j \<and> j < k + 2 \<and> even (d - j)"
        then have "j \<noteq> k + 1" using less.prems(3) by presburger
        with j consider "j < k" | "j = k" by linarith
        then show "furthest a b d j (?V ! nat (j + mx)) \<and>
            \<not> (?N \<le> ?V ! nat (j + mx) \<and> ?M \<le> ?V ! nat (j + mx) - j)"
        proof cases
          case 1
          have "0 \<le> j + mx" using j d by linarith
          with 1 idx have "nat (j + mx) \<noteq> nat (k + mx)" by (simp add: nat_eq_iff)
          then have "?V ! nat (j + mx) = V ! nat (j + mx)" by simp
          moreover have "- d \<le> j \<and> j < k \<and> even (d - j)" using j 1 by simp
          ultimately show ?thesis using less.prems(5) unfolding cur_ok_def by metis
        next
          case 2
          with idx have "?V ! nat (j + mx) = ?x" by simp
          with fx nf 2 show ?thesis by simp
        qed
      qed
      have p': "prev_ok a b mx d ?V"
        using less.prems(4) idx(1) less.prems(3) d(2) by (rule prev_ok_update)
      have "length (fst (kloop a b d (k + 2) ?V)) = length ?V \<and>
         (if snd (kloop a b d (k + 2) ?V)
          then furthest a b d (?N - ?M) ?N
          else prev_ok a b mx (d + 1) (fst (kloop a b d (k + 2) ?V)) \<and> \<not> reach a b d ?N ?M)"
      proof (rule less.hyps)
        show "nat (d + 2 - (k + 2)) < nat (d + 2 - k)" using True by simp
        show "length ?V = nat (2 * mx + 1)" using less.prems(1) by simp
        show "- d \<le> k + 2" using less.prems(2) by simp
        show "even (d - (k + 2))" using less.prems(3) by simp
        show "prev_ok a b mx d ?V" by (rule p')
        show "cur_ok a b mx d (k + 2) ?V" by (rule c')
      qed
      then show ?thesis unfolding kl by simp
    qed
  qed
qed

lemma dloop_step:
  "d \<le> int (length a) + int (length b) \<Longrightarrow>
   dloop a b d V trace =
     (if snd (kloop a b d (- d) V) then trace @ [V]
      else dloop a b (d + 1) (fst (kloop a b d (- d) V)) (trace @ [V]))"
  by (subst dloop.simps) (simp add: Let_def)

lemma dloop_spec:
  assumes mx: "mx = int (length a) + int (length b)"
  shows "length V = nat (2 * mx + 1) \<Longrightarrow> 0 \<le> d \<Longrightarrow> prev_ok a b mx d V \<Longrightarrow>
    (\<forall>d'. d' < d \<longrightarrow> \<not> reach a b d' (int (length a)) (int (length b))) \<Longrightarrow>
    length trace = nat d \<Longrightarrow>
    (\<forall>i. 0 \<le> i \<and> i < d \<longrightarrow> prev_ok a b mx i (trace ! nat i)) \<Longrightarrow>
    \<exists>D. 0 \<le> D \<and> length (dloop a b d V trace) = nat D + 1 \<and>
        (\<forall>i. 0 \<le> i \<and> i \<le> D \<longrightarrow> prev_ok a b mx i (dloop a b d V trace ! nat i)) \<and>
        furthest a b D (int (length a) - int (length b)) (int (length a)) \<and>
        (\<forall>d'. d' < D \<longrightarrow> \<not> reach a b d' (int (length a)) (int (length b)))"
proof (induction "nat (mx + 1 - d)" arbitrary: d V trace rule: less_induct)
  case less
  let ?N = "int (length a)" and ?M = "int (length b)"
  have dmx: "d \<le> mx"
  proof (rule ccontr)
    assume "\<not> d \<le> mx"
    then have "mx < d" by simp
    with less.prems(4) have "\<not> reach a b mx ?N ?M" by blast
    then show False using reach_corner [of a b] mx by simp
  qed
  let ?r = "kloop a b d (- d) V"
  have c0: "cur_ok a b mx d (- d) V" unfolding cur_ok_def by simp
  have ks: "length (fst ?r) = length V \<and>
         (if snd ?r then furthest a b d (?N - ?M) ?N
          else prev_ok a b mx (d + 1) (fst ?r) \<and> \<not> reach a b d ?N ?M)"
    using less.prems(1) mx less.prems(2) dmx _ _ less.prems(3) c0 less.prems(4)
    by (rule kloop_spec) simp_all
  have tr: "prev_ok a b mx i ((trace @ [V]) ! nat i)" if "0 \<le> i \<and> i \<le> d" for i
  proof (cases "i = d")
    case True
    with less.prems(5) have "(trace @ [V]) ! nat i = V" by (simp add: nth_append)
    with less.prems(3) True show ?thesis by simp
  next
    case False
    with that have i: "0 \<le> i \<and> i < d" by simp
    then have "nat i < length trace" using less.prems(5) by simp
    then have "(trace @ [V]) ! nat i = trace ! nat i" by (simp add: nth_append)
    with less.prems(6) i show ?thesis by simp
  qed
  have st: "dloop a b d V trace =
     (if snd ?r then trace @ [V] else dloop a b (d + 1) (fst ?r) (trace @ [V]))"
    using dmx mx by (intro dloop_step) simp
  show ?case
  proof (cases "snd ?r")
    case True
    then have eq: "dloop a b d V trace = trace @ [V]" using st by simp
    have "furthest a b d (?N - ?M) ?N" using ks True by simp
    moreover have "length (trace @ [V]) = nat d + 1" using less.prems(5) by simp
    ultimately show ?thesis
      unfolding eq using less.prems(2,4) tr by blast
  next
    case False
    then have eq: "dloop a b d V trace = dloop a b (d + 1) (fst ?r) (trace @ [V])"
      using st by simp
    from ks False have k1: "length (fst ?r) = length V" and k2: "prev_ok a b mx (d + 1) (fst ?r)"
      and k3: "\<not> reach a b d ?N ?M" by simp_all
    have e': "\<forall>d'. d' < d + 1 \<longrightarrow> \<not> reach a b d' ?N ?M"
    proof (intro allI impI)
      fix d' :: int assume "d' < d + 1"
      then consider "d' < d" | "d' = d" by linarith
      then show "\<not> reach a b d' ?N ?M" using less.prems(4) k3 by cases auto
    qed
    have tr': "\<forall>i. 0 \<le> i \<and> i < d + 1 \<longrightarrow> prev_ok a b mx i ((trace @ [V]) ! nat i)"
      using tr by simp
    show ?thesis unfolding eq
    proof (rule less.hyps)
      show "nat (mx + 1 - (d + 1)) < nat (mx + 1 - d)" using dmx by simp
      show "length (fst ?r) = nat (2 * mx + 1)" using k1 less.prems(1) by simp
      show "0 \<le> d + 1" using less.prems(2) by simp
      show "prev_ok a b mx (d + 1) (fst ?r)" by (rule k2)
      show "\<forall>d'. d' < d + 1 \<longrightarrow> \<not> reach a b d' ?N ?M" by (rule e')
      show "length (trace @ [V]) = nat (d + 1)" using less.prems(2,5) by (simp add: nat_add_distrib)
      show "\<forall>i. 0 \<le> i \<and> i < d + 1 \<longrightarrow> prev_ok a b mx i ((trace @ [V]) ! nat i)" by (rule tr')
    qed
  qed
qed

lemma is_path_bounds: "is_path a b x y es \<Longrightarrow> x \<le> int (length a) \<and> y \<le> int (length b)"
  by (induction es arbitrary: x y) (auto split: edit_type.splits)

lemma backsnake_stop: "\<not> (x > px \<and> y > py) \<Longrightarrow> backsnake x y px py edits = (x, y, edits)"
  by (subst backsnake.simps) (rule if_not_P)

lemma backsnake_step:
  "x > px \<Longrightarrow> y > py \<Longrightarrow>
   backsnake x y px py edits =
     backsnake (x - 1) (y - 1) px py (edits @ [\<lparr>etype = TEqual, li = x - 1, ri = y - 1\<rparr>])"
  by (subst backsnake.simps) simp

lemma backsnake_spec:
  assumes "is_path a b x (x - k) (rev edits)" and "x0 \<le> x"
    and "\<forall>i. x0 \<le> i \<and> i < x \<longrightarrow> match_at a b k i"
    and "0 \<le> x0" and "0 \<le> x0 - k"
    and "(px = x0 \<and> py < x0 - k) \<or> (px < x0 \<and> py = x0 - k)"
  shows "\<exists>es. backsnake x (x - k) px py edits = (x0, x0 - k, es) \<and>
           is_path a b x0 (x0 - k) (rev es) \<and> count_noneq es = count_noneq edits"
  using assms(1,2,3)
proof (induction "nat (x - x0)" arbitrary: x edits rule: less_induct)
  case less
  show ?case
  proof (cases "x = x0")
    case True
    then have "\<not> (x > px \<and> x - k > py)" using assms(6) by auto
    then have "backsnake x (x - k) px py edits = (x, x - k, edits)"
      by (rule backsnake_stop)
    with True less.prems(1) show ?thesis by simp
  next
    case False
    with less.prems(2) have gt: "x0 < x" by simp
    then have c: "x > px" "x - k > py" using assms(6) by auto
    let ?e = "\<lparr>etype = TEqual, li = x - 1, ri = x - 1 - k\<rparr>"
    have eqk: "x - k - 1 = x - 1 - k" by simp
    have unf: "backsnake x (x - k) px py edits = backsnake (x - 1) (x - 1 - k) px py (edits @ [?e])"
      using backsnake_step [OF c, of edits] unfolding eqk .
    have m: "match_at a b k (x - 1)" using less.prems(3) gt by simp
    have "is_path a b (x - 1) (x - 1 - k) (?e # rev edits)"
      using m less.prems(1) gt assms(4,5) by (simp add: match_at_def algebra_simps)
    then have p: "is_path a b (x - 1) (x - 1 - k) (rev (edits @ [?e]))" by simp
    have "\<exists>es. backsnake (x - 1) (x - 1 - k) px py (edits @ [?e]) = (x0, x0 - k, es) \<and>
           is_path a b x0 (x0 - k) (rev es) \<and> count_noneq es = count_noneq (edits @ [?e])"
    proof (rule less.hyps)
      show "nat (x - 1 - x0) < nat (x - x0)" using gt by simp
      show "is_path a b (x - 1) (x - 1 - k) (rev (edits @ [?e]))" by (rule p)
      show "x0 \<le> x - 1" using gt by simp
      show "\<forall>i. x0 \<le> i \<and> i < x - 1 \<longrightarrow> match_at a b k i" using less.prems(3) by simp
    qed
    then show ?thesis unfolding unf by (simp add: count_noneq_def)
  qed
qed

section \<open>Backtracking\<close>

lemma backtrack_stop:
  "\<not> (d \<ge> 0 \<and> (x > 0 \<or> y > 0)) \<Longrightarrow> backtrack mx trace d x y edits = edits"
  by (subst backtrack.simps) (rule if_not_P)

lemma backtrack_step:
  assumes "d \<ge> 0" and "x > 0 \<or> y > 0"
    and "pk = (if x - y = - d \<or> (x - y \<noteq> d \<and>
                  (trace ! nat d) ! nat (x - y + mx - 1) < (trace ! nat d) ! nat (x - y + mx + 1))
               then x - y + 1 else x - y - 1)"
    and "px = (trace ! nat d) ! nat (pk + mx)" and "py = px - pk"
    and "s = back_edit d px py (backsnake x y px py edits)"
  shows "backtrack mx trace d x y edits =
           backtrack mx trace (d - 1) (fst s) (fst (snd s)) (snd (snd s))"
  using assms(1,2) unfolding assms(3-6) by (subst backtrack.simps) (simp add: Let_def)

lemma count_noneq_snoc:
  "count_noneq (es @ [e]) = count_noneq es + (if etype e = TEqual then 0 else 1)"
  by (simp add: count_noneq_def)

lemma backtrack_spec:
  assumes T: "\<forall>i. 0 \<le> i \<and> i \<le> D \<longrightarrow> prev_ok a b mx i (trace ! nat i)"
  shows "0 \<le> d \<Longrightarrow> d \<le> D \<Longrightarrow> furthest a b d (x - y) x \<Longrightarrow> is_path a b x y (rev edits) \<Longrightarrow>
     int (count_noneq edits) = D - d \<Longrightarrow>
     is_path a b 0 0 (rev (backtrack mx trace d x y edits)) \<and>
     int (count_noneq (backtrack mx trace d x y edits)) = D"
proof (induction "nat d" arbitrary: d x y edits rule: less_induct)
  case less
  define k where "k = x - y"
  have yk: "y = x - k" by (simp add: k_def)
  from less.prems(3) have r: "reach a b d x (x - k)" by (simp add: furthest_def k_def)
  from reach_bounds [OF r] have b: "0 \<le> x" "0 \<le> x - k" "\<bar>k\<bar> \<le> d" "even (d - k)" "d \<le> x + (x - k)"
    by simp_all
  show ?case
  proof (cases "x > 0 \<or> y > 0")
    case False
    then have "\<not> (d \<ge> 0 \<and> (x > 0 \<or> y > 0))" by simp
    then have st: "backtrack mx trace d x y edits = edits" by (rule backtrack_stop)
    from False b yk have "x = 0" "y = 0" by simp_all
    with b(5) yk less.prems(1) have "d = 0" by simp
    with less.prems(4,5) \<open>x = 0\<close> \<open>y = 0\<close> show ?thesis unfolding st by simp
  next
    case True
    define V where "V = trace ! nat d"
    have p: "prev_ok a b mx d V" using T less.prems(1,2) by (simp add: V_def)
    define x0 where "x0 = start_x mx d k V"
    have fx: "furthest a b d k (fst (snake a b x0 (x0 - k)))"
      unfolding x0_def using p b(3,4) by (rule furthest_step)
    have xs: "x = fst (snake a b x0 (x0 - k))"
      using less.prems(3) fx unfolding k_def [symmetric] by (rule furthest_unique)
    have x0x: "x0 \<le> x" using snake_diag [of a b x0 "x0 - k"] xs by simp
    have ms: "\<forall>i. x0 \<le> i \<and> i < x \<longrightarrow> match_at a b k i"
    proof (intro allI impI)
      fix i assume "x0 \<le> i \<and> i < x"
      then have "x0 \<le> i" "i < fst (snake a b x0 (x0 - k))" using xs by simp_all
      from snake_matches [OF this] show "match_at a b k i" by simp
    qed
    have pth: "is_path a b x (x - k) (rev edits)" using less.prems(4) yk by simp
    define c where "c \<longleftrightarrow> k = - d \<or> (k \<noteq> d \<and> V ! nat (k + mx - 1) < V ! nat (k + mx + 1))"
    define pk where "pk = (if c then k + 1 else k - 1)"
    define px where "px = V ! nat (pk + mx)"
    define py where "py = px - pk"
    define s where "s = back_edit d px py (backsnake x y px py edits)"
    have stp: "backtrack mx trace d x y edits =
           backtrack mx trace (d - 1) (fst s) (fst (snd s)) (snd (snd s))"
      using less.prems(1) True
      by (rule backtrack_step) (simp_all add: pk_def c_def px_def py_def s_def k_def V_def)
    have x0c: "x0 = (if c then V ! nat (k + mx + 1) else V ! nat (k + mx - 1) + 1)"
      by (simp add: x0_def start_x_def c_def)
    show ?thesis
    proof (cases "d = 0")
      case d0: True
      with b(3) have k0: "k = 0" by simp
      with d0 have c: c by (simp add: c_def)
      have v0: "V ! nat (mx + 1) = 0" using p d0 by (simp add: prev_ok_def)
      have pk1: "pk = 1" using c k0 by (simp add: pk_def)
      have px0: "px = 0" using v0 pk1 by (simp add: px_def add.commute)
      have py0: "py = - 1" using px0 pk1 by (simp add: py_def)
      have x00: "x0 = 0" using x0c c k0 v0 by simp
      have "\<exists>es. backsnake x (x - k) px py edits = (x0, x0 - k, es) \<and>
           is_path a b x0 (x0 - k) (rev es) \<and> count_noneq es = count_noneq edits"
        using pth x0x ms by (rule backsnake_spec) (simp_all add: x00 k0 px0 py0)
      then obtain es where es: "backsnake x y px py edits = (0, 0, es)" "is_path a b 0 0 (rev es)"
        "count_noneq es = count_noneq edits"
        using yk x00 k0 by auto
      have s0: "s = (0, 0, es)" using es(1) d0 by (simp add: s_def back_edit_def)
      have "backtrack mx trace d x y edits = backtrack mx trace (d - 1) 0 0 es"
        unfolding stp s0 by simp
      also have "\<dots> = es" by (rule backtrack_stop) simp
      finally show ?thesis using es(2,3) less.prems(5) d0 by simp
    next
      case dn: False
      with less.prems(1) have dpos: "0 < d" by simp
      show ?thesis
      proof (cases c)
        case True
        then have kd: "k \<noteq> d" using dpos by (auto simp: c_def)
        have k2: "k + 2 \<le> d" using parity_upper [OF b(4) kd] b(3) by simp
        have pkv: "pk = k + 1" using True by (simp add: pk_def)
        have e1: "k + 1 + mx = k + mx + 1" by simp
        have pxv: "px = x0" unfolding px_def pkv e1 using True x0c by simp
        have pyv: "py = x0 - k - 1" using pxv pkv by (simp add: py_def)
        have "\<bar>k + 1\<bar> \<le> d - 1 \<and> even (d - 1 - (k + 1))" using k2 b(3,4) by auto
        then have "furthest a b (d - 1) (k + 1) (V ! nat (k + 1 + mx))"
          using p dn unfolding prev_ok_def by (simp only: if_False)
        then have f': "furthest a b (d - 1) (k + 1) x0"
          using pxv unfolding px_def pkv by simp
        then have "reach a b (d - 1) x0 (x0 - (k + 1))" by (simp add: furthest_def)
        from reach_bounds [OF this] have nn: "0 \<le> x0" "0 \<le> x0 - k - 1" by simp_all
        have "\<exists>es. backsnake x (x - k) px py edits = (x0, x0 - k, es) \<and>
           is_path a b x0 (x0 - k) (rev es) \<and> count_noneq es = count_noneq edits"
          using pth x0x ms by (rule backsnake_spec) (use nn pxv pyv in simp_all)
        then obtain es where es: "backsnake x y px py edits = (x0, x0 - k, es)"
          "is_path a b x0 (x0 - k) (rev es)" "count_noneq es = count_noneq edits"
          using yk by auto
        let ?e = "\<lparr>etype = TInsert, li = - 1, ri = x0 - k - 1\<rparr>"
        have sv: "s = (x0, x0 - k - 1, es @ [?e])"
          using es(1) dpos pxv pyv by (simp add: s_def back_edit_def)
        from is_path_bounds [OF es(2)] have "x0 - k \<le> int (length b)" by simp
        then have pth': "is_path a b x0 (x0 - k - 1) (rev (es @ [?e]))"
          using es(2) nn by simp
        have "x0 - (x0 - k - 1) = k + 1" by simp
        then have f'': "furthest a b (d - 1) (x0 - (x0 - k - 1)) x0" using f' by simp
        have cnt: "int (count_noneq (es @ [?e])) = D - (d - 1)"
          using es(3) less.prems(5) by (simp add: count_noneq_snoc)
        have "is_path a b 0 0 (rev (backtrack mx trace (d - 1) x0 (x0 - k - 1) (es @ [?e]))) \<and>
            int (count_noneq (backtrack mx trace (d - 1) x0 (x0 - k - 1) (es @ [?e]))) = D"
        proof (rule less.hyps)
          show "nat (d - 1) < nat d" using dpos by simp
          show "0 \<le> d - 1" using dpos by simp
          show "d - 1 \<le> D" using less.prems(2) by simp
          show "furthest a b (d - 1) (x0 - (x0 - k - 1)) x0" by (rule f'')
          show "is_path a b x0 (x0 - k - 1) (rev (es @ [?e]))" by (rule pth')
          show "int (count_noneq (es @ [?e])) = D - (d - 1)" by (rule cnt)
        qed
        then show ?thesis unfolding stp sv by simp
      next
        case False
        then have kd: "k \<noteq> - d" by (simp add: c_def)
        have k2: "- d + 2 \<le> k" using parity_lower [OF b(4) kd] b(3) by simp
        have pkv: "pk = k - 1" using False by (simp add: pk_def)
        have e1: "k - 1 + mx = k + mx - 1" by simp
        have pxv: "px = x0 - 1" unfolding px_def pkv e1 using False x0c by simp
        have pyv: "py = x0 - k" using pxv pkv by (simp add: py_def)
        have "\<bar>k - 1\<bar> \<le> d - 1 \<and> even (d - 1 - (k - 1))" using k2 b(3,4) by auto
        then have "furthest a b (d - 1) (k - 1) (V ! nat (k - 1 + mx))"
          using p dn unfolding prev_ok_def by (simp only: if_False)
        then have f': "furthest a b (d - 1) (k - 1) (x0 - 1)"
          using pxv unfolding px_def pkv by simp
        then have "reach a b (d - 1) (x0 - 1) (x0 - 1 - (k - 1))" by (simp add: furthest_def)
        from reach_bounds [OF this] have nn: "0 \<le> x0 - 1" "0 \<le> x0 - k" by simp_all
        have "\<exists>es. backsnake x (x - k) px py edits = (x0, x0 - k, es) \<and>
           is_path a b x0 (x0 - k) (rev es) \<and> count_noneq es = count_noneq edits"
          using pth x0x ms by (rule backsnake_spec) (use nn pxv pyv in simp_all)
        then obtain es where es: "backsnake x y px py edits = (x0, x0 - k, es)"
          "is_path a b x0 (x0 - k) (rev es)" "count_noneq es = count_noneq edits"
          using yk by auto
        let ?e = "\<lparr>etype = TDelete, li = x0 - 1, ri = - 1\<rparr>"
        have sv: "s = (x0 - 1, x0 - k, es @ [?e])"
          using es(1) dpos pxv pyv by (simp add: s_def back_edit_def)
        from is_path_bounds [OF es(2)] have "x0 \<le> int (length a)" by simp
        then have pth': "is_path a b (x0 - 1) (x0 - k) (rev (es @ [?e]))"
          using es(2) nn by simp
        have "x0 - 1 - (x0 - k) = k - 1" by simp
        then have f'': "furthest a b (d - 1) (x0 - 1 - (x0 - k)) (x0 - 1)" using f' by simp
        have cnt: "int (count_noneq (es @ [?e])) = D - (d - 1)"
          using es(3) less.prems(5) by (simp add: count_noneq_snoc)
        have "is_path a b 0 0 (rev (backtrack mx trace (d - 1) (x0 - 1) (x0 - k) (es @ [?e]))) \<and>
            int (count_noneq (backtrack mx trace (d - 1) (x0 - 1) (x0 - k) (es @ [?e]))) = D"
        proof (rule less.hyps)
          show "nat (d - 1) < nat d" using dpos by simp
          show "0 \<le> d - 1" using dpos by simp
          show "d - 1 \<le> D" using less.prems(2) by simp
          show "furthest a b (d - 1) (x0 - 1 - (x0 - k)) (x0 - 1)" by (rule f'')
          show "is_path a b (x0 - 1) (x0 - k) (rev (es @ [?e]))" by (rule pth')
          show "int (count_noneq (es @ [?e])) = D - (d - 1)" by (rule cnt)
        qed
        then show ?thesis unfolding stp sv by simp
      qed
    qed
  qed
qed

section \<open>Minimality of the edit script\<close>

lemma edist_Nil2 [simp]: "edist xs [] = length xs"
  by (cases xs) simp_all

lemma edist_delete: "edist (x # xs) ys \<le> 1 + edist xs ys"
  by (cases ys) auto

lemma edist_insert: "edist xs (y # ys) \<le> 1 + edist xs ys"
  by (cases xs) auto

lemma edist_keep: "edist (x # xs) (x # ys) \<le> edist xs ys"
  by simp

lemma count_noneq_rev [simp]: "count_noneq (rev es) = count_noneq es"
  by (simp add: count_noneq_def flip: rev_filter)

lemma count_noneq_Cons:
  "count_noneq (e # es) = (if etype e = TEqual then 0 else 1) + count_noneq es"
  by (simp add: count_noneq_def)

lemma drop_nat_step:
  "0 \<le> x \<Longrightarrow> x < int (length a) \<Longrightarrow> drop (nat x) a = a ! nat x # drop (nat (x + 1)) a"
  by (simp add: Cons_nth_drop_Suc nat_add_distrib)

lemma is_path_edist:
  "is_path a b x y es \<Longrightarrow> 0 \<le> x \<Longrightarrow> 0 \<le> y \<Longrightarrow>
   edist (drop (nat x) a) (drop (nat y) b) \<le> count_noneq es"
proof (induction es arbitrary: x y)
  case Nil
  then show ?case by simp
next
  case (Cons e es)
  show ?case
  proof (cases "etype e")
    case TEqual
    with Cons.prems have h: "x < int (length a)" "y < int (length b)" "lookup a x = lookup b y"
      "is_path a b (x + 1) (y + 1) es" by simp_all
    from h(1,2,3) Cons.prems(2,3) have eq: "a ! nat x = b ! nat y" by (simp add: lookup_def)
    have "edist (drop (nat (x + 1)) a) (drop (nat (y + 1)) b) \<le> count_noneq es"
      using h(4) Cons.prems(2,3) by (intro Cons.IH) simp_all
    moreover have "edist (drop (nat x) a) (drop (nat y) b) \<le>
        edist (drop (nat (x + 1)) a) (drop (nat (y + 1)) b)"
      unfolding drop_nat_step [OF Cons.prems(2) h(1)] drop_nat_step [OF Cons.prems(3) h(2)] eq
      by (rule edist_keep)
    ultimately show ?thesis using TEqual by (simp add: count_noneq_Cons)
  next
    case TDelete
    with Cons.prems have h: "x < int (length a)" "is_path a b (x + 1) y es" by simp_all
    have "edist (drop (nat (x + 1)) a) (drop (nat y) b) \<le> count_noneq es"
      using h(2) Cons.prems(2,3) by (intro Cons.IH) simp_all
    moreover have "edist (drop (nat x) a) (drop (nat y) b) \<le>
        1 + edist (drop (nat (x + 1)) a) (drop (nat y) b)"
      unfolding drop_nat_step [OF Cons.prems(2) h(1)] by (rule edist_delete)
    ultimately show ?thesis using TDelete by (simp add: count_noneq_Cons)
  next
    case TInsert
    with Cons.prems have h: "y < int (length b)" "is_path a b x (y + 1) es" by simp_all
    have "edist (drop (nat x) a) (drop (nat (y + 1)) b) \<le> count_noneq es"
      using h(2) Cons.prems(2,3) by (intro Cons.IH) simp_all
    moreover have "edist (drop (nat x) a) (drop (nat y) b) \<le>
        1 + edist (drop (nat x) a) (drop (nat (y + 1)) b)"
      unfolding drop_nat_step [OF Cons.prems(3) h(1)] by (rule edist_insert)
    ultimately show ?thesis using TInsert by (simp add: count_noneq_Cons)
  qed
qed

lemma reach_rights: "reach a b d x y \<Longrightarrow> reach a b (d + int j) (x + int j) y"
proof (induction j)
  case 0
  then show ?case by simp
next
  case (Suc j)
  from reach.right [OF Suc.IH [OF Suc.prems]] show ?case by (simp add: algebra_simps)
qed

lemma reach_downs: "reach a b d x y \<Longrightarrow> reach a b (d + int j) x (y + int j)"
proof (induction j)
  case 0
  then show ?case by simp
next
  case (Suc j)
  from reach.down [OF Suc.IH [OF Suc.prems]] show ?case by (simp add: algebra_simps)
qed

lemma reach_edist:
  "xs = drop (nat x) a \<Longrightarrow> ys = drop (nat y) b \<Longrightarrow> reach a b d x y \<Longrightarrow>
   x \<le> int (length a) \<Longrightarrow> y \<le> int (length b) \<Longrightarrow>
   reach a b (d + int (edist xs ys)) (int (length a)) (int (length b))"
proof (induction xs ys arbitrary: x y d rule: edist.induct)
  case (1 ys)
  from reach_bounds [OF "1.prems"(3)] have nn: "0 \<le> x" "0 \<le> y" by simp_all
  from "1.prems"(1) have "int (length a) \<le> x" using nn by simp
  with "1.prems"(4) have x: "x = int (length a)" by simp
  have l: "int (length ys) = int (length b) - y" using "1.prems"(2,5) nn by simp
  from reach_downs [OF "1.prems"(3), of "length ys"] show ?case
    unfolding x by (simp add: l)
next
  case (2 v va)
  from reach_bounds [OF "2.prems"(3)] have nn: "0 \<le> x" "0 \<le> y" by simp_all
  from "2.prems"(2) have "int (length b) \<le> y" using nn by simp
  with "2.prems"(5) have y: "y = int (length b)" by simp
  define n where "n = length (v # va)"
  have l: "int n = int (length a) - x" using "2.prems"(1,4) nn unfolding n_def by simp
  have e: "edist (v # va) [] = n" by (simp add: n_def)
  from reach_rights [OF "2.prems"(3), of n] show ?case
    unfolding y e l by simp
next
  case (3 p ps q qs)
  from reach_bounds [OF "3.prems"(3)] have nn: "0 \<le> x" "0 \<le> y" by simp_all
  have xl: "x < int (length a)"
  proof (rule ccontr)
    assume "\<not> x < int (length a)"
    then have "drop (nat x) a = []" by simp
    with "3.prems"(1) show False by simp
  qed
  have yl: "y < int (length b)"
  proof (rule ccontr)
    assume "\<not> y < int (length b)"
    then have "drop (nat y) b = []" by simp
    with "3.prems"(2) show False by simp
  qed
  from "3.prems"(1) drop_nat_step [OF nn(1) xl] have px: "p = a ! nat x" "ps = drop (nat (x + 1)) a"
    by simp_all
  from "3.prems"(2) drop_nat_step [OF nn(2) yl] have qy: "q = b ! nat y" "qs = drop (nat (y + 1)) b"
    by simp_all
  have r1: "reach a b (d + 1) (x + 1) y" by (rule reach.right [OF "3.prems"(3)])
  have r2: "reach a b (d + 1) x (y + 1)" by (rule reach.down [OF "3.prems"(3)])
  have x1: "x + 1 \<le> int (length a)" using xl by simp
  have y1: "y + 1 \<le> int (length b)" using yl by simp
  have del: "reach a b (d + int (1 + edist ps (q # qs))) (int (length a)) (int (length b))"
  proof -
    have "reach a b (d + 1 + int (edist ps (q # qs))) (int (length a)) (int (length b))"
    proof (cases "p = q")
      case True
      show ?thesis by (rule "3.IH"(2) [OF True px(2) "3.prems"(2) r1 x1 "3.prems"(5)])
    next
      case False
      show ?thesis by (rule "3.IH"(4) [OF False px(2) "3.prems"(2) r1 x1 "3.prems"(5)])
    qed
    then show ?thesis by (simp add: algebra_simps)
  qed
  have ins: "reach a b (d + int (1 + edist (p # ps) qs)) (int (length a)) (int (length b))"
  proof -
    have "reach a b (d + 1 + int (edist (p # ps) qs)) (int (length a)) (int (length b))"
    proof (cases "p = q")
      case True
      show ?thesis by (rule "3.IH"(3) [OF True "3.prems"(1) qy(2) r2 "3.prems"(4) y1])
    next
      case False
      show ?thesis by (rule "3.IH"(5) [OF False "3.prems"(1) qy(2) r2 "3.prems"(4) y1])
    qed
    then show ?thesis by (simp add: algebra_simps)
  qed
  show ?case
  proof (cases "p = q")
    case True
    then have m: "match_at a b (x - y) x"
      using px(1) qy(1) xl yl nn by (simp add: match_at_def lookup_def)
    have keep: "reach a b (d + int (edist ps qs)) (int (length a)) (int (length b))"
      by (rule "3.IH"(1) [OF True px(2) qy(2) reach.diag [OF "3.prems"(3) m] x1 y1])
    have "edist (p # ps) (q # qs) = edist ps qs \<or>
          edist (p # ps) (q # qs) = 1 + edist ps (q # qs) \<or>
          edist (p # ps) (q # qs) = 1 + edist (p # ps) qs"
      using True by (simp add: min_def)
    with keep del ins show ?thesis by metis
  next
    case False
    then have "edist (p # ps) (q # qs) = 1 + edist ps (q # qs) \<or>
          edist (p # ps) (q # qs) = 1 + edist (p # ps) qs"
      by (simp add: min_def)
    with del ins show ?thesis by metis
  qed
qed

lemma myers_edits_correct:
  assumes ne: "a \<noteq> [] \<or> b \<noteq> []"
  shows "is_path a b 0 0 (myers_edits a b) \<and> count_noneq (myers_edits a b) = edist a b"
proof -
  let ?N = "int (length a)" and ?M = "int (length b)"
  define mx where "mx = ?N + ?M"
  define V where "V = replicate (nat (2 * mx + 1)) (0::int)"
  define trace where "trace = dloop a b 0 V []"
  have mx1: "1 \<le> mx" using ne by (cases a; cases b) (simp_all add: mx_def)
  have me: "myers_edits a b = rev (backtrack mx trace (int (length trace) - 1) ?N ?M [])"
    by (simp add: myers_edits_def Let_def mx_def V_def trace_def)
  have p0: "prev_ok a b mx 0 V" using mx1 by (simp add: prev_ok_def V_def)
  have "\<exists>D. 0 \<le> D \<and> length (dloop a b 0 V []) = nat D + 1 \<and>
        (\<forall>i. 0 \<le> i \<and> i \<le> D \<longrightarrow> prev_ok a b mx i (dloop a b 0 V [] ! nat i)) \<and>
        furthest a b D (?N - ?M) ?N \<and> (\<forall>d'. d' < D \<longrightarrow> \<not> reach a b d' ?N ?M)"
    using mx_def _ _ p0
  proof (rule dloop_spec)
    show "length V = nat (2 * mx + 1)" by (simp add: V_def)
    show "\<forall>d'. d' < 0 \<longrightarrow> \<not> reach a b d' ?N ?M" using reach_bounds [of a b] by force
    show "\<forall>i. 0 \<le> i \<and> i < 0 \<longrightarrow> prev_ok a b mx i ([] ! nat i)" by auto
  qed simp_all
  then obtain D where D: "0 \<le> D" "length trace = nat D + 1"
    "\<forall>i. 0 \<le> i \<and> i \<le> D \<longrightarrow> prev_ok a b mx i (trace ! nat i)"
    "furthest a b D (?N - ?M) ?N" "\<forall>d'. d' < D \<longrightarrow> \<not> reach a b d' ?N ?M"
    unfolding trace_def by blast
  have lt: "int (length trace) - 1 = D" using D(1,2) by simp
  have bt: "is_path a b 0 0 (rev (backtrack mx trace D ?N ?M [])) \<and>
     int (count_noneq (backtrack mx trace D ?N ?M [])) = D"
    using D(3,1) _ D(4) by (rule backtrack_spec) (simp_all add: count_noneq_def)
  then have pth: "is_path a b 0 0 (myers_edits a b)" and cnt: "int (count_noneq (myers_edits a b)) = D"
    unfolding me lt by simp_all
  from is_path_edist [OF pth] have le: "edist a b \<le> count_noneq (myers_edits a b)" by simp
  have "reach a b (0 + int (edist a b)) ?N ?M"
    by (rule reach_edist [of _ 0 _ _ 0]) (simp_all add: reach.start)
  then have "\<not> int (edist a b) < D" using D(5) by auto
  with cnt le have "count_noneq (myers_edits a b) = edist a b" by simp
  with pth show ?thesis by simp
qed

section \<open>The hunks of the line-level diff\<close>

lemma is_path_left:
  "is_path a b x y es \<Longrightarrow> 0 \<le> x \<Longrightarrow>
   map li (filter (\<lambda>e. \<not> is_ins e) es) = map int [nat x ..< length a]"
proof (induction es arbitrary: x y)
  case Nil
  then show ?case by simp
next
  case (Cons e es)
  show ?case
  proof (cases "etype e")
    case TEqual
    with Cons.prems have h: "li e = x" "x < int (length a)" "is_path a b (x + 1) (y + 1) es"
      by simp_all
    from Cons.IH [OF h(3)] Cons.prems(2)
    have "map li (filter (\<lambda>e. \<not> is_ins e) es) = map int [Suc (nat x) ..< length a]"
      by (simp add: nat_add_distrib)
    then show ?thesis using TEqual h(1,2) Cons.prems(2)
      by (simp add: is_ins_def upt_conv_Cons)
  next
    case TDelete
    with Cons.prems have h: "li e = x" "x < int (length a)" "is_path a b (x + 1) y es"
      by simp_all
    from Cons.IH [OF h(3)] Cons.prems(2)
    have "map li (filter (\<lambda>e. \<not> is_ins e) es) = map int [Suc (nat x) ..< length a]"
      by (simp add: nat_add_distrib)
    then show ?thesis using TDelete h(1,2) Cons.prems(2)
      by (simp add: is_ins_def upt_conv_Cons)
  next
    case TInsert
    with Cons.prems have h: "is_path a b x (y + 1) es" by simp
    from Cons.IH [OF h Cons.prems(2)] TInsert show ?thesis by (simp add: is_ins_def)
  qed
qed

lemma is_path_right:
  "is_path a b x y es \<Longrightarrow> 0 \<le> y \<Longrightarrow>
   map ri (filter (\<lambda>e. \<not> is_del e) es) = map int [nat y ..< length b]"
proof (induction es arbitrary: x y)
  case Nil
  then show ?case by simp
next
  case (Cons e es)
  show ?case
  proof (cases "etype e")
    case TEqual
    with Cons.prems have h: "ri e = y" "y < int (length b)" "is_path a b (x + 1) (y + 1) es"
      by simp_all
    from Cons.IH [OF h(3)] Cons.prems(2)
    have "map ri (filter (\<lambda>e. \<not> is_del e) es) = map int [Suc (nat y) ..< length b]"
      by (simp add: nat_add_distrib)
    then show ?thesis using TEqual h(1,2) Cons.prems(2)
      by (simp add: is_del_def upt_conv_Cons)
  next
    case TInsert
    with Cons.prems have h: "ri e = y" "y < int (length b)" "is_path a b x (y + 1) es"
      by simp_all
    from Cons.IH [OF h(3)] Cons.prems(2)
    have "map ri (filter (\<lambda>e. \<not> is_del e) es) = map int [Suc (nat y) ..< length b]"
      by (simp add: nat_add_distrib)
    then show ?thesis using TInsert h(1,2) Cons.prems(2)
      by (simp add: is_del_def upt_conv_Cons)
  next
    case TDelete
    with Cons.prems have h: "is_path a b (x + 1) y es" by simp
    from Cons.IH [OF h Cons.prems(2)] TDelete show ?thesis by (simp add: is_del_def)
  qed
qed

lemma is_path_edit_ok: "is_path a b x y es \<Longrightarrow> e \<in> set es \<Longrightarrow> edit_ok (length a) (length b) e"
proof (induction es arbitrary: x y)
  case Nil
  then show ?case by simp
next
  case (Cons e' es)
  show ?case
  proof (cases "e = e'")
    case True
    with Cons.prems(1) show ?thesis by (cases "etype e'") (simp_all add: edit_ok_def)
  next
    case False
    with Cons.prems(2) have "e \<in> set es" by simp
    with Cons.prems(1) Cons.IH show ?thesis by (cases "etype e'") auto
  qed
qed

lemma sides_from_indices:
  assumes "map f es = map int [0 ..< length xs]"
  shows "map (\<lambda>e. (f e, [lookup xs (f e)])) es = map (\<lambda>i. (int i, [Some (xs ! i)])) [0 ..< length xs]"
proof -
  have "map (\<lambda>e. (f e, [lookup xs (f e)])) es = map (\<lambda>v. (v, [lookup xs v])) (map f es)"
    by (simp add: comp_def)
  also have "\<dots> = map (\<lambda>v. (v, [lookup xs v])) (map int [0 ..< length xs])"
    by (simp only: assms)
  also have "\<dots> = map (\<lambda>i. (int i, [Some (xs ! i)])) [0 ..< length xs]"
    by (simp add: lookup_def)
  finally show ?thesis .
qed

lemma myersDiff_nonempty:
  assumes "left \<noteq> [] \<or> right \<noteq> []"
  shows "myersDiff left right iw =
     consolidate left right (myers_edits (map (\<lambda>l. normalizeForCompare l iw) left)
       (map (\<lambda>l. normalizeForCompare l iw) right))"
proof -
  have "length left + length right \<noteq> 0" using assms by simp
  then have "int (length left) + int (length right) \<noteq> 0" by linarith
  then show ?thesis by (simp add: myersDiff_def Let_def)
qed

lemma myersDiff_sides:
  "left_side (myersDiff left right iw) = map (\<lambda>i. (int i, [Some (left ! i)])) [0 ..< length left] \<and>
   right_side (myersDiff left right iw) = map (\<lambda>i. (int i, [Some (right ! i)])) [0 ..< length right]"
proof (cases "left = [] \<and> right = []")
  case True
  then show ?thesis by (simp add: myersDiff_def left_side_def right_side_def)
next
  case False
  let ?a = "map (\<lambda>l. normalizeForCompare l iw) left" and ?b = "map (\<lambda>l. normalizeForCompare l iw) right"
  from False have ne: "?a \<noteq> [] \<or> ?b \<noteq> []" by simp
  from False have md: "myersDiff left right iw = consolidate left right (myers_edits ?a ?b)"
    by (intro myersDiff_nonempty) simp
  from myers_edits_correct [OF ne] have p: "is_path ?a ?b 0 0 (myers_edits ?a ?b)" by simp
  from is_path_left [OF p] have l: "map li (filter (\<lambda>e. \<not> is_ins e) (myers_edits ?a ?b)) = map int [0 ..< length left]"
    by simp
  from is_path_right [OF p] have r: "map ri (filter (\<lambda>e. \<not> is_del e) (myers_edits ?a ?b)) = map int [0 ..< length right]"
    by simp
  show ?thesis
    unfolding md left_side_consolidate right_side_consolidate
    using sides_from_indices [OF l] sides_from_indices [OF r] by simp
qed

lemma set_takeWhile_subset: "set (takeWhile P xs) \<subseteq> set xs"
  by (induction xs) auto

lemma set_dropWhile_subset: "set (dropWhile P xs) \<subseteq> set xs"
  by (induction xs) auto

lemma takeWhile_holds: "x \<in> set (takeWhile P xs) \<Longrightarrow> P x"
  by (induction xs) (auto split: if_splits)

lemma from_edits_mono: "set es \<subseteq> set es' \<Longrightarrow> from_edits left right es h \<Longrightarrow> from_edits left right es' h"
  unfolding from_edits_def by blast

lemma from_edits_equal: "e \<in> set es \<Longrightarrow> etype e = TEqual \<Longrightarrow> from_edits left right es (equal_hunk left right e)"
  unfolding from_edits_def by blast

lemma from_edits_changed:
  "d \<in> set es \<Longrightarrow> i \<in> set es \<Longrightarrow> is_del d \<Longrightarrow> is_ins i \<Longrightarrow>
   from_edits left right es (changed_hunk left right d i)"
  unfolding from_edits_def by blast

lemma from_edits_removed: "d \<in> set es \<Longrightarrow> is_del d \<Longrightarrow> from_edits left right es (removed_hunk left d)"
  unfolding from_edits_def by blast

lemma from_edits_added: "i \<in> set es \<Longrightarrow> is_ins i \<Longrightarrow> from_edits left right es (added_hunk right i)"
  unfolding from_edits_def by blast

lemma paired_hunks_from_edits:
  assumes "h \<in> set (paired_hunks left right ds ins)"
    and "set ds \<subseteq> set es" and "set ins \<subseteq> set es"
    and "\<And>d. d \<in> set ds \<Longrightarrow> is_del d" and "\<And>i. i \<in> set ins \<Longrightarrow> is_ins i"
  shows "from_edits left right es h"
proof -
  let ?c = "min (length ds) (length ins)"
  from assms(1) consider
    (ch) j where "j < ?c" "h = changed_hunk left right (ds ! j) (ins ! j)"
    | (rm) d where "d \<in> set (drop ?c ds)" "h = removed_hunk left d"
    | (ad) i where "i \<in> set (drop ?c ins)" "h = added_hunk right i"
    by (auto simp: paired_hunks_def Let_def)
  then show ?thesis
  proof cases
    case ch
    then have "ds ! j \<in> set ds" "ins ! j \<in> set ins" by simp_all
    with assms(2-5) have "ds ! j \<in> set es" "ins ! j \<in> set es" "is_del (ds ! j)" "is_ins (ins ! j)"
      by blast+
    then show ?thesis unfolding ch(2) by (rule from_edits_changed)
  next
    case rm
    from rm(1) have "d \<in> set ds" by (rule in_set_dropD)
    with assms(2,4) have "d \<in> set es" "is_del d" by blast+
    then show ?thesis unfolding rm(2) by (rule from_edits_removed)
  next
    case ad
    from ad(1) have "i \<in> set ins" by (rule in_set_dropD)
    with assms(3,5) have "i \<in> set es" "is_ins i" by blast+
    then show ?thesis unfolding ad(2) by (rule from_edits_added)
  qed
qed

lemma consolidate_hunks:
  "h \<in> set (consolidate left right es) \<Longrightarrow> from_edits left right es h"
proof (induction left right es rule: consolidate.induct)
  case (1 left right)
  then show ?case by simp
next
  case (2 left right e es)
  show ?case
  proof (cases "etype e")
    case TEqual
    with "2.prems" have "h = equal_hunk left right e \<or> h \<in> set (consolidate left right es)"
      by simp
    then show ?thesis
    proof
      assume "h = equal_hunk left right e"
      then show ?thesis using TEqual by (simp add: from_edits_equal)
    next
      assume "h \<in> set (consolidate left right es)"
      from "2.IH"(1) [OF TEqual this] show ?thesis
        by (rule from_edits_mono [rotated]) auto
    qed
  next
    case TDelete
    let ?D = "takeWhile is_del (e # es)" and ?R1 = "dropWhile is_del (e # es)"
    let ?I = "takeWhile is_ins ?R1" and ?R2 = "dropWhile is_ins ?R1"
    have unf: "consolidate left right (e # es) =
        paired_hunks left right ?D ?I @ consolidate left right ?R2"
      using TDelete by (simp add: Let_def block_hunks_paired del: takeWhile.simps dropWhile.simps)
    have sD: "set ?D \<subseteq> set (e # es)" by (rule set_takeWhile_subset)
    have sR1: "set ?R1 \<subseteq> set (e # es)" by (rule set_dropWhile_subset)
    have sI: "set ?I \<subseteq> set (e # es)" using set_takeWhile_subset sR1 by (rule subset_trans)
    have sR2: "set ?R2 \<subseteq> set (e # es)" using set_dropWhile_subset sR1 by (rule subset_trans)
    have dD: "\<And>d. d \<in> set ?D \<Longrightarrow> is_del d" by (rule takeWhile_holds)
    have iI: "\<And>i. i \<in> set ?I \<Longrightarrow> is_ins i" by (rule takeWhile_holds)
    from "2.prems" have "h \<in> set (paired_hunks left right ?D ?I) \<or> h \<in> set (consolidate left right ?R2)"
      unfolding unf by (simp del: takeWhile.simps dropWhile.simps consolidate.simps)
    then show ?thesis
    proof
      assume "h \<in> set (paired_hunks left right ?D ?I)"
      then show ?thesis using sD sI dD iI by (rule paired_hunks_from_edits)
    next
      assume rest: "h \<in> set (consolidate left right ?R2)"
      have "from_edits left right ?R2 h"
        by (rule "2.IH"(2) [OF _ TDelete refl refl refl refl rest]) (simp add: TDelete)
      with sR2 show ?thesis by (rule from_edits_mono)
    qed
  next
    case TInsert
    let ?I = "takeWhile is_ins (e # es)" and ?R = "dropWhile is_ins (e # es)"
    have unf: "consolidate left right (e # es) =
        map (added_hunk right) ?I @ consolidate left right ?R"
      using TInsert by (simp add: Let_def del: takeWhile.simps dropWhile.simps)
    have sI: "set ?I \<subseteq> set (e # es)" by (rule set_takeWhile_subset)
    have sR: "set ?R \<subseteq> set (e # es)" by (rule set_dropWhile_subset)
    have iI: "\<And>i. i \<in> set ?I \<Longrightarrow> is_ins i" by (rule takeWhile_holds)
    from "2.prems" have "h \<in> added_hunk right ` set ?I \<or> h \<in> set (consolidate left right ?R)"
      unfolding unf by (simp del: takeWhile.simps dropWhile.simps consolidate.simps)
    then show ?thesis
    proof
      assume "h \<in> added_hunk right ` set ?I"
      then obtain i where i: "i \<in> set ?I" "h = added_hunk right i" by blast
      from i(1) sI iI have "i \<in> set (e # es)" "is_ins i" by blast+
      then show ?thesis unfolding i(2) by (rule from_edits_added)
    next
      assume rest: "h \<in> set (consolidate left right ?R)"
      have "from_edits left right ?R h"
        by (rule "2.IH"(3) [OF _ _ refl refl rest]) (simp_all add: TInsert)
      with sR show ?thesis by (rule from_edits_mono)
    qed
  qed
qed

lemma consolidate_side_ok:
  assumes "\<And>e. e \<in> set es \<Longrightarrow> edit_ok (length left) (length right) e"
    and "h \<in> set (consolidate left right es)"
  shows "side_ok left right h"
proof -
  from consolidate_hunks [OF assms(2)] consider
    (eq) e where "e \<in> set es" "etype e = TEqual" "h = equal_hunk left right e"
    | (ch) d i where "d \<in> set es" "i \<in> set es" "is_del d" "is_ins i" "h = changed_hunk left right d i"
    | (rm) d where "d \<in> set es" "is_del d" "h = removed_hunk left d"
    | (ad) i where "i \<in> set es" "is_ins i" "h = added_hunk right i"
    unfolding from_edits_def by blast
  then show ?thesis
  proof cases
    case eq
    with assms(1) [OF eq(1)] show ?thesis
      by (simp add: side_ok_def edit_ok_def equal_hunk_def left_present_def right_present_def lookup_def)
  next
    case ch
    with assms(1) [OF ch(1)] assms(1) [OF ch(2)] show ?thesis
      by (simp add: side_ok_def edit_ok_def changed_hunk_def left_present_def right_present_def
          lookup_def is_del_def is_ins_def)
  next
    case rm
    with assms(1) [OF rm(1)] show ?thesis
      by (simp add: side_ok_def edit_ok_def removed_hunk_def left_present_def right_absent_def
          lookup_def is_del_def)
  next
    case ad
    with assms(1) [OF ad(1)] show ?thesis
      by (simp add: side_ok_def edit_ok_def added_hunk_def left_absent_def right_present_def
          lookup_def is_ins_def)
  qed
qed

lemma myersDiff_side_ok: "h \<in> set (myersDiff left right iw) \<Longrightarrow> side_ok left right h"
proof (cases "left = [] \<and> right = []")
  case True
  then show "h \<in> set (myersDiff left right iw) \<Longrightarrow> side_ok left right h"
    by (simp add: myersDiff_def)
next
  case False
  assume h: "h \<in> set (myersDiff left right iw)"
  let ?a = "map (\<lambda>l. normalizeForCompare l iw) left" and ?b = "map (\<lambda>l. normalizeForCompare l iw) right"
  from False have ne: "?a \<noteq> [] \<or> ?b \<noteq> []" by simp
  from False have md: "myersDiff left right iw = consolidate left right (myers_edits ?a ?b)"
    by (intro myersDiff_nonempty) simp
  from myers_edits_correct [OF ne] have p: "is_path ?a ?b 0 0 (myers_edits ?a ?b)" by simp
  have "edit_ok (length left) (length right) e" if "e \<in> set (myers_edits ?a ?b)" for e
    using is_path_edit_ok [OF p that] by simp
  then show "side_ok left right h" using h unfolding md by (rule consolidate_side_ok)
qed

section \<open>The rendered markup\<close>

text \<open>
  The markup of the two renderers is a concatenation of pieces of the templates and of
  escaped values of the hunks.
\<close>

lemma view_ok_Nil: "view_ok hs []"
  unfolding view_ok_def by (rule exI [of _ "[]"]) (simp add: flatten_def)

lemma view_ok_append: "view_ok hs a \<Longrightarrow> view_ok hs b \<Longrightarrow> view_ok hs (a @ b)"
proof -
  assume "view_ok hs a" "view_ok hs b"
  then obtain p q where "a = flatten p" "list_all (view_piece hs) p"
      "b = flatten q" "list_all (view_piece hs) q"
    unfolding view_ok_def by blast
  then have "a @ b = flatten (p @ q) \<and> list_all (view_piece hs) (p @ q)"
    by (simp add: flatten_def)
  then show ?thesis unfolding view_ok_def by blast
qed

lemma view_ok_template: "m \<in> set templates \<Longrightarrow> view_ok hs m"
  unfolding view_ok_def by (rule exI [of _ "[Chrome m]"]) (simp add: flatten_def)

lemma view_ok_decimal: "decimal m \<Longrightarrow> view_ok hs m"
  unfolding view_ok_def by (rule exI [of _ "[Chrome m]"]) (simp add: flatten_def)

lemma view_ok_escape: "v \<in> raw_text hs \<Longrightarrow> view_ok hs (escape v)"
  unfolding view_ok_def by (rule exI [of _ "[Escaped v]"]) (simp add: flatten_def)

lemma digit_decimal: "k < 10 \<Longrightarrow> (0x30 :: 16 word) \<le> 0x30 + of_nat k \<and> (0x30 :: 16 word) + of_nat k \<le> 0x39"
proof -
  assume "k < 10"
  then have "k = 0 \<or> k = 1 \<or> k = 2 \<or> k = 3 \<or> k = 4 \<or> k = 5 \<or> k = 6 \<or> k = 7 \<or> k = 8 \<or> k = 9"
    by arith
  then show ?thesis by auto
qed

lemma decimal_show_nat: "decimal (show_nat k)"
proof (induction k rule: show_nat.induct)
  case (1 k)
  show ?case
  proof (cases "k < 10")
    case True
    then show ?thesis using digit_decimal [of k] by (subst show_nat.simps) (simp add: decimal_def)
  next
    case False
    have "k mod 10 < 10" by simp
    from digit_decimal [OF this] 1 [OF False] False show ?thesis
      by (subst show_nat.simps) (simp add: decimal_def)
  qed
qed

lemma decimal_num_label: "decimal (num_label v)"
  by (cases v) (simp_all add: num_label_def decimal_show_nat, simp add: decimal_def)

lemma view_ok_Cons: "[c] \<in> set templates \<Longrightarrow> view_ok hs s \<Longrightarrow> view_ok hs (c # s)"
  using view_ok_append [OF view_ok_template, of "[c]" hs s] by simp

lemma view_ok_show_nat: "view_ok hs (show_nat k)"
  by (rule view_ok_decimal) (rule decimal_show_nat)

lemma view_ok_num_label: "view_ok hs (num_label v)"
  by (rule view_ok_decimal) (rule decimal_num_label)

lemma view_ok_separator: "cols = ''6'' \<or> cols = ''3'' \<Longrightarrow> view_ok hs (separator cols k)"
  by (auto simp: separator_def view_ok_append view_ok_Cons view_ok_template view_ok_show_nat
      view_ok_Nil templates_def)

lemma view_ok_typeToRowClass: "view_ok hs (typeToRowClass t)"
  by (cases t) (simp_all add: typeToRowClass_def view_ok_template templates_def)

lemma view_ok_sbs_row:
  "view_ok hs lc \<Longrightarrow> view_ok hs rc \<Longrightarrow>
   view_ok hs (sbs_row (typeToRowClass t) (num_label l) lc (num_label r) rc)"
  by (simp add: sbs_row_def view_ok_append view_ok_template view_ok_num_label
      view_ok_typeToRowClass templates_def)

lemma view_ok_inline_row:
  "cls = ''inline-equal'' \<or> cls = ''inline-removed'' \<or> cls = ''inline-added'' \<Longrightarrow>
   view_ok hs g1 \<Longrightarrow> view_ok hs g2 \<Longrightarrow> view_ok hs code \<Longrightarrow>
   view_ok hs (inline_row cls g1 g2 code)"
  by (auto simp: inline_row_def view_ok_append view_ok_template templates_def)

lemma view_ok_marked_removed:
  "\<forall>t \<in> set ts. Some t \<in> raw_text hs \<Longrightarrow> view_ok hs (marked word_removed ml ts)"
proof (induction ml ts rule: list_induct2')
  case (4 b bs t ts)
  then have e: "view_ok hs (escape (Some t))" and r: "view_ok hs (marked word_removed bs ts)"
    by (simp_all add: view_ok_escape)
  from e have "view_ok hs (mark word_removed b t)"
    by (simp add: mark_def word_removed_def view_ok_append view_ok_template templates_def)
  with r show ?case
    by (simp add: marked_Cons view_ok_append)
qed (simp_all add: marked_def view_ok_Nil)

lemma view_ok_marked_added:
  "\<forall>t \<in> set ts. Some t \<in> raw_text hs \<Longrightarrow> view_ok hs (marked word_added ml ts)"
proof (induction ml ts rule: list_induct2')
  case (4 b bs t ts)
  then have e: "view_ok hs (escape (Some t))" and r: "view_ok hs (marked word_added bs ts)"
    by (simp_all add: view_ok_escape)
  from e have "view_ok hs (mark word_added b t)"
    by (simp add: mark_def word_added_def view_ok_append view_ok_template templates_def)
  with r show ?case
    by (simp add: marked_Cons view_ok_append)
qed (simp_all add: marked_def view_ok_Nil)

lemma raw_text_left: "h \<in> set hs \<Longrightarrow> first_line (lLines h) \<in> raw_text hs"
  unfolding raw_text_def by blast

lemma raw_text_right: "h \<in> set hs \<Longrightarrow> first_line (rLines h) \<in> raw_text hs"
  unfolding raw_text_def by blast

lemma raw_text_left_token:
  "h \<in> set hs \<Longrightarrow> first_line (lLines h) = Some l \<Longrightarrow> t \<in> set (tokenizeWords l) \<Longrightarrow>
   Some t \<in> raw_text hs"
  unfolding raw_text_def line_tokens_def by force

lemma raw_text_right_token:
  "h \<in> set hs \<Longrightarrow> first_line (rLines h) = Some r \<Longrightarrow> t \<in> set (tokenizeWords r) \<Longrightarrow>
   Some t \<in> raw_text hs"
  unfolding raw_text_def line_tokens_def by force

lemma view_ok_word_pair:
  assumes "h \<in> set hs" "word_pair h = Some w"
  shows "view_ok hs (fst w) \<and> view_ok hs (snd w)"
proof -
  from assms(2) obtain l r x where l: "first_line (lLines h) = Some l"
    and r: "first_line (rLines h) = Some r" and x: "wordDiff l r = Some x"
    and w: "w = (leftHtml x, rightHtml x)"
    by (auto simp: word_pair_def split: option.splits)
  from wordDiff_marks [of l r] x obtain ml mr where
    "x = \<lparr>leftHtml = marked word_removed ml (tokenizeWords l),
          rightHtml = marked word_added mr (tokenizeWords r)\<rparr>"
    by auto
  with w have "fst w = marked word_removed ml (tokenizeWords l)"
    "snd w = marked word_added mr (tokenizeWords r)" by simp_all
  moreover have "\<forall>t \<in> set (tokenizeWords l). Some t \<in> raw_text hs"
    using raw_text_left_token [OF assms(1) l] by blast
  moreover have "\<forall>t \<in> set (tokenizeWords r). Some t \<in> raw_text hs"
    using raw_text_right_token [OF assms(1) r] by blast
  ultimately show ?thesis by (simp add: view_ok_marked_removed view_ok_marked_added)
qed

lemma view_ok_sbs_cells:
  assumes "h \<in> set hs" "sbs_cells h = Some c"
  shows "view_ok hs (fst c) \<and> view_ok hs (snd c)"
proof (cases "htype h = HChanged")
  case True
  with assms(2) obtain w where w: "word_pair h = Some w"
    and c: "c = (if first_line (lLines h) \<noteq> Some [] then fst w else [],
                 if first_line (rLines h) \<noteq> Some [] then snd w else [])"
    by (auto simp: sbs_cells_def split: option.splits)
  from view_ok_word_pair [OF assms(1) w] c show ?thesis by (simp add: view_ok_Nil)
next
  case False
  with assms(2) have "c = (if first_line (lLines h) \<noteq> Some [] then escape (first_line (lLines h)) else [],
                 if first_line (rLines h) \<noteq> Some [] then escape (first_line (rLines h)) else [])"
    by (auto simp: sbs_cells_def)
  then show ?thesis
    using assms(1) by (simp add: view_ok_Nil view_ok_escape raw_text_left raw_text_right)
qed

lemma view_ok_inline_rows:
  assumes "h \<in> set hs" "inline_rows h ln rn = Some rows"
  shows "view_ok hs rows"
proof (cases "htype h")
  case HChanged
  with assms(2) obtain w where w: "word_pair h = Some w"
    and c: "rows = inline_row ''inline-removed'' (show_nat ln) [0x2212] (fst w) @ nl @
                   inline_row ''inline-added'' (str ''  '') (show_nat rn) (snd w)"
    by (auto simp: inline_rows_def split: option.splits)
  have m: "view_ok hs [0x2212]" "view_ok hs (str ''  '')" "view_ok hs nl"
    by (simp_all add: view_ok_template templates_def)
  from view_ok_word_pair [OF assms(1) w] show ?thesis unfolding c
    by (intro view_ok_append view_ok_inline_row m view_ok_show_nat) simp_all
next
  case HEqual
  with assms(2) have c: "rows = inline_row ''inline-equal'' (show_nat ln) (str ''  '') (escape (first_line (lLines h)))"
    by (simp add: inline_rows_def)
  have m: "view_ok hs (str ''  '')" by (simp add: view_ok_template templates_def)
  show ?thesis unfolding c
    by (intro view_ok_inline_row m view_ok_show_nat view_ok_escape raw_text_left assms(1)) simp
next
  case HRemoved
  with assms(2) have c: "rows = inline_row ''inline-removed'' (show_nat ln) [0x2212] (escape (first_line (lLines h)))"
    by (simp add: inline_rows_def)
  have m: "view_ok hs [0x2212]" by (simp add: view_ok_template templates_def)
  show ?thesis unfolding c
    by (intro view_ok_inline_row m view_ok_show_nat view_ok_escape raw_text_left assms(1)) simp
next
  case HAdded
  with assms(2) have c: "rows = inline_row ''inline-added'' (str ''  '') (show_nat rn) (escape (first_line (rLines h)))"
    by (simp add: inline_rows_def)
  have m: "view_ok hs (str ''  '')" by (simp add: view_ok_template templates_def)
  show ?thesis unfolding c
    by (intro view_ok_inline_row m view_ok_show_nat view_ok_escape raw_text_right assms(1)) simp
qed

lemma sbs_loop_view:
  "sbs_loop hs visible lineNums i acc sk = Some r \<Longrightarrow> view_ok hs acc \<Longrightarrow> view_ok hs (fst r)"
proof (induction hs visible lineNums i acc sk rule: sbs_loop.induct)
  case (1 hs visible lineNums i acc sk)
  show ?case
  proof (cases "i < length hs")
    case False
    with "1.prems" show ?thesis by (subst (asm) sbs_loop.simps) auto
  next
    case i: True
    then have mem: "hs ! i \<in> set hs" by simp
    show ?thesis
    proof (cases "visible ! i")
      case False
      with i "1.prems"(1) have
        "sbs_loop hs visible lineNums (i + 1) acc (if sk = None then Some i else sk) = Some r"
        by (subst (asm) sbs_loop.simps) simp
      from "1.IH"(1) [OF i False this "1.prems"(2)] show ?thesis .
    next
      case True
      define acc1 where "acc1 = (case sk of None \<Rightarrow> acc | Some st \<Rightarrow> acc @ separator ''6'' (i - st))"
      have a1: "view_ok hs acc1" unfolding acc1_def using "1.prems"(2)
        by (cases sk) (simp_all add: view_ok_append view_ok_separator)
      from i True "1.prems"(1) obtain cells where c: "sbs_cells (hs ! i) = Some cells"
        and l: "sbs_loop hs visible lineNums (i + 1)
                  (acc1 @ sbs_row (typeToRowClass (htype (hs ! i)))
                     (num_label (fst (lineNums ! i))) (fst cells)
                     (num_label (snd (lineNums ! i))) (snd cells)) None = Some r"
        by (subst (asm) sbs_loop.simps) (auto simp: acc1_def Let_def split: option.splits)
      from view_ok_sbs_cells [OF mem c] a1
      have "view_ok hs (acc1 @ sbs_row (typeToRowClass (htype (hs ! i)))
                     (num_label (fst (lineNums ! i))) (fst cells)
                     (num_label (snd (lineNums ! i))) (snd cells))"
        by (intro view_ok_append view_ok_sbs_row) simp_all
      with "1.IH"(2) [OF i _ acc1_def c l] True show ?thesis by simp
    qed
  qed
qed



lemma inline_loop_view:
  "inline_loop hs visible i acc sk ln rn = Some r \<Longrightarrow> view_ok hs acc \<Longrightarrow> view_ok hs (fst r)"
proof (induction hs visible i acc sk ln rn rule: inline_loop.induct)
  case (1 hs visible i acc sk ln rn)
  show ?case
  proof (cases "i < length hs")
    case False
    with "1.prems" show ?thesis by (subst (asm) inline_loop.simps) auto
  next
    case i: True
    then have mem: "hs ! i \<in> set hs" by simp
    show ?thesis
    proof (cases "visible ! i")
      case False
      with i "1.prems"(1) have
        "inline_loop hs visible (i + 1) acc (if sk = None then Some i else sk)
           (if lStart (hs ! i) \<ge> 0 then ln + 1 else ln)
           (if rStart (hs ! i) \<ge> 0 then rn + 1 else rn) = Some r"
        by (subst (asm) inline_loop.simps) simp
      from "1.IH"(1) [OF i False this "1.prems"(2)] show ?thesis .
    next
      case True
      define acc1 where "acc1 = (case sk of None \<Rightarrow> acc | Some st \<Rightarrow> acc @ separator ''3'' (i - st))"
      have a1: "view_ok hs acc1" unfolding acc1_def using "1.prems"(2)
        by (cases sk) (simp_all add: view_ok_append view_ok_separator)
      from i True "1.prems"(1) obtain rows where c: "inline_rows (hs ! i) ln rn = Some rows"
        and l: "inline_loop hs visible (i + 1) (acc1 @ rows) None
                  (if htype (hs ! i) = HAdded then ln else ln + 1)
                  (if htype (hs ! i) = HRemoved then rn else rn + 1) = Some r"
        by (subst (asm) inline_loop.simps) (auto simp: acc1_def Let_def split: option.splits)
      from view_ok_inline_rows [OF mem c] a1 have "view_ok hs (acc1 @ rows)"
        by (rule view_ok_append [rotated])
      with "1.IH"(2) [OF i _ acc1_def c l] True show ?thesis by simp
    qed
  qed
qed

lemma view_ok_finish:
  "cols = ''6'' \<or> cols = ''3'' \<Longrightarrow> view_ok hs acc \<Longrightarrow>
   view_ok hs ((case sk of None \<Rightarrow> acc | Some st \<Rightarrow> acc @ separator cols (length hs - st))
               @ str ''</tbody></table>'')"
  by (cases sk) (simp_all add: view_ok_append view_ok_separator view_ok_template templates_def)

lemma renderSideBySide_view: "renderSideBySide hs = Some markup \<Longrightarrow> view_ok hs markup"
proof (cases "hasChanges hs")
  case False
  assume "renderSideBySide hs = Some markup"
  with False show ?thesis by (auto simp: renderSideBySide_def view_ok_template templates_def)
next
  case True
  let ?hd = "str ''<table class=\"diff-table\" role=\"table\"><colgroup><col/><col/><col/><col/><col/><col/></colgroup><tbody>''"
  assume "renderSideBySide hs = Some markup"
  with True obtain acc sk where l: "sbs_loop hs (mark_visible hs) (line_nums 1 1 hs) 0 ?hd None = Some (acc, sk)"
    and m: "markup = (case sk of None \<Rightarrow> acc | Some st \<Rightarrow> acc @ separator ''6'' (length hs - st))
                     @ str ''</tbody></table>''"
    by (auto simp: renderSideBySide_def split: option.splits)
  have "view_ok hs ?hd" by (simp add: view_ok_template templates_def)
  from sbs_loop_view [OF l this] have "view_ok hs acc" by simp
  then show ?thesis unfolding m by (intro view_ok_finish) simp_all
qed

lemma renderInline_view: "renderInline hs = Some markup \<Longrightarrow> view_ok hs markup"
proof (cases "hasChanges hs")
  case False
  assume "renderInline hs = Some markup"
  with False show ?thesis by (auto simp: renderInline_def view_ok_template templates_def)
next
  case True
  let ?hd = "str ''<table class=\"inline-table\" role=\"table\"><colgroup><col/><col/><col/></colgroup><tbody>''"
  assume "renderInline hs = Some markup"
  with True obtain acc sk where l: "inline_loop hs (mark_visible hs) 0 ?hd None 1 1 = Some (acc, sk)"
    and m: "markup = (case sk of None \<Rightarrow> acc | Some st \<Rightarrow> acc @ separator ''3'' (length hs - st))
                     @ str ''</tbody></table>''"
    by (auto simp: renderInline_def split: option.splits)
  have "view_ok hs ?hd" by (simp add: view_ok_template templates_def)
  from inline_loop_view [OF l this] have "view_ok hs acc" by simp
  then show ?thesis unfolding m by (intro view_ok_finish) simp_all
qed

text \<open>
  The renderers return on hunks whose changed rows have both lines, and the hunks of
  \<open>myersDiff\<close> are such hunks: \<open>run\<close> always returns a result.
\<close>

lemma word_pair_returns:
  "first_line (lLines h) \<noteq> None \<Longrightarrow> first_line (rLines h) \<noteq> None \<Longrightarrow> \<exists>w. word_pair h = Some w"
proof -
  assume "first_line (lLines h) \<noteq> None" "first_line (rLines h) \<noteq> None"
  then obtain l r where lr: "first_line (lLines h) = Some l" "first_line (rLines h) = Some r" by auto
  obtain x where "wordDiff l r = Some x" using wordDiff_returns by blast
  with lr show ?thesis by (simp add: word_pair_def)
qed

lemma sbs_cells_returns: "renderable h \<Longrightarrow> \<exists>c. sbs_cells h = Some c"
proof (cases "htype h = HChanged")
  case True
  assume "renderable h"
  with True obtain w where "word_pair h = Some w"
    using word_pair_returns [of h] by (auto simp: renderable_def)
  with True show ?thesis by (cases w) (simp add: sbs_cells_def)
next
  case False
  then show ?thesis by (simp add: sbs_cells_def)
qed

lemma inline_rows_returns: "renderable h \<Longrightarrow> \<exists>c. inline_rows h ln rn = Some c"
proof (cases "htype h")
  case HChanged
  assume "renderable h"
  with HChanged obtain w where "word_pair h = Some w"
    using word_pair_returns [of h] by (auto simp: renderable_def)
  with HChanged show ?thesis by (simp add: inline_rows_def)
qed (simp_all add: inline_rows_def)

lemma sbs_loop_returns:
  "\<forall>h \<in> set hs. renderable h \<Longrightarrow> \<exists>r. sbs_loop hs visible lineNums i acc sk = Some r"
proof (induction hs visible lineNums i acc sk rule: sbs_loop.induct)
  case (1 hs visible lineNums i acc sk)
  show ?case
  proof (cases "i < length hs")
    case False
    then show ?thesis by (subst sbs_loop.simps) simp
  next
    case i: True
    then have mem: "renderable (hs ! i)" using "1.prems" by simp
    show ?thesis
    proof (cases "visible ! i")
      case False
      from "1.IH"(1) [OF i False "1.prems"] i False show ?thesis
        by (subst sbs_loop.simps) simp
    next
      case True
      from sbs_cells_returns [OF mem] obtain c where c: "sbs_cells (hs ! i) = Some c" by blast
      from "1.IH"(2) [OF i _ refl c "1.prems"] True i c show ?thesis
        by (subst sbs_loop.simps) (simp add: Let_def)
    qed
  qed
qed

lemma inline_loop_returns:
  "\<forall>h \<in> set hs. renderable h \<Longrightarrow> \<exists>r. inline_loop hs visible i acc sk ln rn = Some r"
proof (induction hs visible i acc sk ln rn rule: inline_loop.induct)
  case (1 hs visible i acc sk ln rn)
  show ?case
  proof (cases "i < length hs")
    case False
    then show ?thesis by (subst inline_loop.simps) simp
  next
    case i: True
    then have mem: "renderable (hs ! i)" using "1.prems" by simp
    show ?thesis
    proof (cases "visible ! i")
      case False
      from "1.IH"(1) [OF i False "1.prems"] i False show ?thesis
        by (subst inline_loop.simps) simp
    next
      case True
      from inline_rows_returns [OF mem] obtain c where c: "inline_rows (hs ! i) ln rn = Some c" by blast
      from "1.IH"(2) [OF i _ refl c "1.prems"] True i c show ?thesis
        by (subst inline_loop.simps) (simp add: Let_def)
    qed
  qed
qed

lemma renderSideBySide_returns:
  assumes "\<forall>h \<in> set hs. renderable h"
  shows "\<exists>m. renderSideBySide hs = Some m"
proof (cases "hasChanges hs")
  case False
  then show ?thesis by (simp add: renderSideBySide_def)
next
  case True
  let ?hd = "str ''<table class=\"diff-table\" role=\"table\"><colgroup><col/><col/><col/><col/><col/><col/></colgroup><tbody>''"
  from sbs_loop_returns [OF assms] obtain r where
    "sbs_loop hs (mark_visible hs) (line_nums 1 1 hs) 0 ?hd None = Some r" by blast
  with True show ?thesis by (cases r) (simp add: renderSideBySide_def)
qed

lemma renderInline_returns:
  assumes "\<forall>h \<in> set hs. renderable h"
  shows "\<exists>m. renderInline hs = Some m"
proof (cases "hasChanges hs")
  case False
  then show ?thesis by (simp add: renderInline_def)
next
  case True
  let ?hd = "str ''<table class=\"inline-table\" role=\"table\"><colgroup><col/><col/><col/></colgroup><tbody>''"
  from inline_loop_returns [OF assms] obtain r where
    "inline_loop hs (mark_visible hs) 0 ?hd None 1 1 = Some r" by blast
  with True show ?thesis by (cases r) (simp add: renderInline_def)
qed

lemma myersDiff_renderable: "h \<in> set (myersDiff left right iw) \<Longrightarrow> renderable h"
  using myersDiff_side_ok [of h left right iw]
  by (auto simp: renderable_def side_ok_def left_present_def right_present_def first_line_def)

lemma run_view:
  "\<exists>r. run parse stringify leftText rightText opts = Some r \<and>
     (\<forall>res. r = Success res \<longrightarrow> view_ok (hunks res) (html res))"
proof -
  define texts where "texts =
    (if jsonMode opts then
       (case normalizeJSON parse stringify leftText of
          Inl msg \<Rightarrow> Inl (str ''Left pane: Invalid JSON '' @ [0x2014] @ str '' '' @ msg)
        | Inr l \<Rightarrow>
            (case normalizeJSON parse stringify rightText of
               Inl msg \<Rightarrow> Inl (str ''Right pane: Invalid JSON '' @ [0x2014] @ str '' '' @ msg)
             | Inr r \<Rightarrow> Inr (l, r)))
     else Inr (leftText, rightText))"
  show ?thesis
  proof (cases texts)
    case (Inl e)
    then have "run parse stringify leftText rightText opts = Some (Failure e)"
      unfolding run_def texts_def [symmetric] by simp
    then show ?thesis by simp
  next
    case (Inr p)
    obtain l r where p: "p = (l, r)" by (cases p)
    define hs where "hs = myersDiff (splitLines l) (splitLines r) (ignoreWhitespace opts)"
    define rend where "rend = (if viewMode opts = Some (str ''sidebyside'') then renderSideBySide hs
                    else renderInline hs)"
    have ren: "\<forall>h \<in> set hs. renderable h" unfolding hs_def using myersDiff_renderable by blast
    have "\<exists>m. rend = Some m"
      unfolding rend_def using renderSideBySide_returns [OF ren] renderInline_returns [OF ren]
      by simp
    then obtain m where m: "rend = Some m" by blast
    then have v: "view_ok hs m"
      unfolding rend_def using renderSideBySide_view renderInline_view
      by (cases "viewMode opts = Some (str ''sidebyside'')") auto
    from Inr p m have "run parse stringify leftText rightText opts =
        Some (Success \<lparr>html = m, stats = computeStats hs, plainText = renderPlainText hs, hunks = hs\<rparr>)"
      unfolding run_def texts_def [symmetric] rend_def hs_def
      by (auto simp: Let_def split: if_splits)
    with v show ?thesis by simp
  qed
qed

text \<open>
  A string that starts with \<open><\<close> and with no piece of the templates is not such a
  concatenation: input text that reached the markup unescaped would not be accepted.
\<close>

lemma escape_no_lt: "0x3C \<notin> set (escape v)"
  using html_safe_escape [of v] by (auto simp: html_safe_def forbidden_def)

lemma raw_markup_not_view:
  assumes "s \<noteq> []" "hd s = 0x3C" "\<forall>m \<in> set templates. m \<noteq> [] \<longrightarrow> take (length m) s \<noteq> m"
  shows "\<not> (\<exists>ps. s = flatten ps \<and> list_all (view_piece hs) ps)"
proof
  assume "\<exists>ps. s = flatten ps \<and> list_all (view_piece hs) ps"
  then obtain ps where "s = flatten ps" "list_all (view_piece hs) ps" by blast
  then show False
  proof (induction ps)
    case Nil
    with assms(1) show ?case by (simp add: flatten_def)
  next
    case (Cons p ps)
    show ?case
    proof (cases "piece_text p = []")
      case True
      with Cons show ?thesis by (simp add: flatten_def)
    next
      case False
      from Cons.prems(1) have s: "s = piece_text p @ flatten ps" by (simp add: flatten_def)
      with False assms(2) have h: "hd (piece_text p) = 0x3C" by simp
      from s have t: "take (length (piece_text p)) s = piece_text p" by simp
      show ?thesis
      proof (cases p)
        case (Escaped v)
        with False h have "0x3C \<in> set (escape v)" by (metis hd_in_set piece_text.simps(2))
        with escape_no_lt show ?thesis by blast
      next
        case (Chrome m)
        with Cons.prems(2) have "m \<in> set templates \<or> decimal m" by simp
        then show ?thesis
        proof
          assume "m \<in> set templates"
          with assms(3) False t Chrome show ?thesis by auto
        next
          assume "decimal m"
          with False Chrome have "hd m \<le> (0x39 :: 16 word)"
            by (cases m) (simp_all add: decimal_def)
          with h Chrome show ?thesis by simp
        qed
      qed
    qed
  qed
qed

lemma script_not_view:
  "\<not> (\<exists>ps. str ''<script>'' = flatten ps \<and> list_all (view_piece hs) ps)"
  by (rule raw_markup_not_view)
     (simp_all add: templates_def str_def no_differences_def nl_def)

section \<open>Claims about the word-level diff and the escaping\<close>

text \<open>
  Claim C7. For every string, the empty string and pure-whitespace strings included,
  concatenating the tokens of \<open>tokenizeWords\<close> in order yields the string itself; no token
  is empty.
\<close>

theorem tokenizeWords_reconstructs:
  "concat (tokenizeWords line) = line \<and> [] \<notin> set (tokenizeWords line)"
  by (induction line rule: tokenizeWords.induct) simp_all

text \<open>
  Claim C10. \<open>wordDiff\<close> returns a result for every pair of lines: each execution of the
  loop body strictly decreases the number of tokens left to consume, never moves an index
  backwards and advances the left or the right index.
\<close>

theorem wordDiff_total:
  "(\<exists>r. wordDiff lineA lineB = Some r) \<and>
   (wd_cond tokA tokB s \<longrightarrow>
      wd_measure tokA tokB (wd_step tokA tokB lcs s) < wd_measure tokA tokB s \<and>
      fst s \<le> fst (wd_step tokA tokB lcs s) \<and>
      fst (snd s) \<le> fst (snd (wd_step tokA tokB lcs s)) \<and>
      (fst s < fst (wd_step tokA tokB lcs s) \<or> fst (snd s) < fst (snd (wd_step tokA tokB lcs s))))"
  using wordDiff_returns wd_step_decreases wd_step_advances by blast

theorem wordDiff_total_witness:
  "(\<exists>r. wordDiff (str ''a'') (str ''b c'') = Some r) \<and>
   wd_cond [str ''a''] [str ''b''] (0, 0, 0, [], []) \<and>
   wd_measure [str ''a''] [str ''b''] (wd_step [str ''a''] [str ''b''] [] (0, 0, 0, [], []))
     < wd_measure [str ''a''] [str ''b''] (0, 0, 0, [], [])"
proof -
  have c: "wd_cond [str ''a''] [str ''b''] (0, 0, 0, [], [])"
    by (simp add: wd_cond_def)
  from wordDiff_total [of "str ''a''" "str ''b c''" "[str ''a'']" "[str ''b'']" "(0, 0, 0, [], [])" "[]"] c
  show ?thesis by blast
qed

text \<open>
  Claim C5. When the product of the two token counts exceeds 100000, \<open>computeLCS\<close> reports
  the empty common subsequence, and \<open>wordDiff\<close> returns every left token, escaped, inside
  \<^verbatim>\<open><span class="word-removed">\<close> ... \<^verbatim>\<open></span>\<close> and every right token, escaped, inside
  \<^verbatim>\<open><span class="word-added">\<close> ... \<^verbatim>\<open></span>\<close>.
\<close>

theorem wordDiff_capped:
  assumes "length (tokenizeWords lineA) * length (tokenizeWords lineB) > 100000"
  shows "computeLCS (tokenizeWords lineA) (tokenizeWords lineB) = [] \<and>
     wordDiff lineA lineB = Some \<lparr>
       leftHtml = concat (map (\<lambda>t. str ''<span class=\"word-removed\">'' @ escape (Some t) @ str ''</span>'')
                    (tokenizeWords lineA)),
       rightHtml = concat (map (\<lambda>t. str ''<span class=\"word-added\">'' @ escape (Some t) @ str ''</span>'')
                    (tokenizeWords lineB))\<rparr>"
  using assms wd_loop_no_lcs [of 0 "tokenizeWords lineA" 0 "tokenizeWords lineB" "[]" "[]"]
  by (simp add: wordDiff_def Let_def computeLCS_capped word_removed_def word_added_def)

theorem wordDiff_capped_witness:
  "length (tokenizeWords (replicate 100001 0x2C)) * length (tokenizeWords [0x2C]) > 100000 \<and>
   computeLCS (tokenizeWords (replicate 100001 0x2C)) (tokenizeWords [0x2C]) = [] \<and>
   wordDiff (replicate 100001 0x2C) [0x2C] = Some \<lparr>
       leftHtml = concat (replicate 100001 (str ''<span class=\"word-removed\">,</span>'')),
       rightHtml = str ''<span class=\"word-added\">,</span>''\<rparr>"
proof -
  have c: "\<not> is_word_char 0x2C" "\<not> is_space_char 0x2C"
    by (simp_all add: is_word_char_def is_space_char_def)
  have t1: "tokenizeWords (replicate 100001 0x2C) = replicate 100001 [0x2C]"
    using c by (rule tokenizeWords_symbols)
  have t2: "tokenizeWords [0x2C] = [[0x2C]]"
    using c by simp
  have h: "length (tokenizeWords (replicate 100001 0x2C)) * length (tokenizeWords [0x2C]) > 100000"
    unfolding t1 t2 by simp
  have e: "escape (Some [0x2C]) = [0x2C]"
    by (simp add: escape_def escape_str_def esc_class_def)
  have l: "str ''<span class=\"word-removed\">'' @ [0x2C] @ str ''</span>'' = str ''<span class=\"word-removed\">,</span>''"
    by (simp add: str_def)
  have r: "str ''<span class=\"word-added\">'' @ [0x2C] @ str ''</span>'' = str ''<span class=\"word-added\">,</span>''"
    by (simp add: str_def)
  from wordDiff_capped [OF h] h show ?thesis unfolding t1 t2 by (simp add: e str_def)
qed

text \<open>
  Claim C6. Whatever value \<open>escape\<close> receives, its result holds none of \<open><\<close>, \<open>>\<close>, \<open>"\<close>,
  \<open>'\<close>, and every \<open>&\<close> in it starts an entity. The two results of \<open>wordDiff\<close> are the
  tokens of the two lines in order, each escaped; the tokens left unmarked are, on both
  sides, the same first \<open>k\<close> tokens of the computed common subsequence, and every other
  token stands, escaped, inside \<^verbatim>\<open><span class="word-removed">\<close> ... \<^verbatim>\<open></span>\<close> on the left
  and inside \<^verbatim>\<open><span class="word-added">\<close> ... \<^verbatim>\<open></span>\<close> on the right. The markup that
  \<open>renderSideBySide\<close> or \<open>renderInline\<close> returns is a concatenation of pieces, each a
  fragment of the templates, a decimal number, or the escaped form of a first line of a
  hunk or of a token of such a line. \<open>run\<close> always returns a result, and the \<open>html\<close> of a
  success result is such a concatenation over the \<open>hunks\<close> of that result. (The
  \<open>plainText\<close> and the \<open>hunks\<close> of the result hold the lines as they are: they are data, not
  markup.)
\<close>

theorem rendered_text_is_escaped:
  "html_safe (escape v) \<and>
   (\<exists>ml mr k. length ml = length (tokenizeWords lineA) \<and> length mr = length (tokenizeWords lineB) \<and>
      unmarked ml (tokenizeWords lineA) = take k (computeLCS (tokenizeWords lineA) (tokenizeWords lineB)) \<and>
      unmarked mr (tokenizeWords lineB) = take k (computeLCS (tokenizeWords lineA) (tokenizeWords lineB)) \<and>
      wordDiff lineA lineB = Some \<lparr>
        leftHtml = concat (map (\<lambda>(b, t). if b then str ''<span class=\"word-removed\">'' @ escape (Some t) @ str ''</span>''
                                         else escape (Some t)) (zip ml (tokenizeWords lineA))),
        rightHtml = concat (map (\<lambda>(b, t). if b then str ''<span class=\"word-added\">'' @ escape (Some t) @ str ''</span>''
                                          else escape (Some t)) (zip mr (tokenizeWords lineB)))\<rparr>) \<and>
   (renderSideBySide hs = Some markup \<or> renderInline hs = Some markup \<longrightarrow>
      (\<exists>ps. markup = flatten ps \<and> list_all (view_piece hs) ps)) \<and>
   (\<exists>r. run parse stringify leftText rightText opts = Some r \<and>
      (\<forall>res. r = Success res \<longrightarrow>
         (\<exists>ps. html res = flatten ps \<and> list_all (view_piece (hunks res)) ps)))"
proof (intro conjI)
  show "html_safe (escape v)" by (rule html_safe_escape)
  show "\<exists>ml mr k. length ml = length (tokenizeWords lineA) \<and> length mr = length (tokenizeWords lineB) \<and>
      unmarked ml (tokenizeWords lineA) = take k (computeLCS (tokenizeWords lineA) (tokenizeWords lineB)) \<and>
      unmarked mr (tokenizeWords lineB) = take k (computeLCS (tokenizeWords lineA) (tokenizeWords lineB)) \<and>
      wordDiff lineA lineB = Some \<lparr>
        leftHtml = concat (map (\<lambda>(b, t). if b then str ''<span class=\"word-removed\">'' @ escape (Some t) @ str ''</span>''
                                         else escape (Some t)) (zip ml (tokenizeWords lineA))),
        rightHtml = concat (map (\<lambda>(b, t). if b then str ''<span class=\"word-added\">'' @ escape (Some t) @ str ''</span>''
                                          else escape (Some t)) (zip mr (tokenizeWords lineB)))\<rparr>"
    using wordDiff_marks [of lineA lineB]
    unfolding marked_def mark_def word_removed_def word_added_def .
  show "renderSideBySide hs = Some markup \<or> renderInline hs = Some markup \<longrightarrow>
      (\<exists>ps. markup = flatten ps \<and> list_all (view_piece hs) ps)"
    using renderSideBySide_view [of hs markup] renderInline_view [of hs markup]
    unfolding view_ok_def by blast
  show "\<exists>r. run parse stringify leftText rightText opts = Some r \<and>
      (\<forall>res. r = Success res \<longrightarrow>
         (\<exists>ps. html res = flatten ps \<and> list_all (view_piece (hunks res)) ps))"
    using run_view [of parse stringify leftText rightText opts]
    unfolding view_ok_def .
qed

theorem rendered_text_is_escaped_witness:
  "html_safe (escape (Some (str ''<a href=\"x\">Tom & Jerry's</a>''))) \<and>
   renderSideBySide
     [\<lparr>htype = HRemoved, lLines = [Some (str ''a<b'')], rLines = [Some []], lStart = 0, rStart = - 1\<rparr>] =
     Some (str ''<table class=\"diff-table\" role=\"table\"><colgroup><col/><col/><col/><col/><col/><col/></colgroup><tbody>'' @
           sbs_row (str ''line-removed'') (str ''1'') (str ''a&lt;b'') [] [] @
           str ''</tbody></table>'') \<and>
   (\<exists>ps. str ''<table class=\"diff-table\" role=\"table\"><colgroup><col/><col/><col/><col/><col/><col/></colgroup><tbody>'' @
           sbs_row (str ''line-removed'') (str ''1'') (str ''a&lt;b'') [] [] @
           str ''</tbody></table>'' = flatten ps \<and>
      list_all (view_piece
        [\<lparr>htype = HRemoved, lLines = [Some (str ''a<b'')], rLines = [Some []], lStart = 0, rStart = - 1\<rparr>]) ps)"
proof -
  let ?h = "\<lparr>htype = HRemoved, lLines = [Some (str ''a<b'')], rLines = [Some []], lStart = 0, rStart = - 1\<rparr>"
  let ?m = "str ''<table class=\"diff-table\" role=\"table\"><colgroup><col/><col/><col/><col/><col/><col/></colgroup><tbody>'' @
           sbs_row (str ''line-removed'') (str ''1'') (str ''a&lt;b'') [] [] @
           str ''</tbody></table>''"
  have e: "escape (Some (str ''a<b'')) = str ''a&lt;b''"
    by (simp add: escape_def escape_str_def esc_class_def ESC_def str_def)
  have n: "show_nat (Suc 0) = str ''1''"
    by (subst show_nat.simps) (simp add: str_def)
  have ne: "str ''a<b'' \<noteq> []" by (simp add: str_def)
  have c: "sbs_cells ?h = Some (str ''a&lt;b'', [])"
    by (simp add: sbs_cells_def first_line_def e ne)
  have v: "mark_visible [?h] = [True]"
    by (simp add: mark_visible_def CONTEXT_LINES_def)
  have r: "renderSideBySide [?h] = Some ?m"
    by (simp add: renderSideBySide_def hasChanges_def v sbs_loop.simps c typeToRowClass_def
        num_label_def n)
  from rendered_text_is_escaped [of "Some (str ''<a href=\"x\">Tom & Jerry's</a>'')" "[]" "[]" "[?h]" ?m] r
  show ?thesis by blast
qed

text \<open>
  Claim C8. In structured mode, a parse failure of the left text, or of the right text
  after the left one parsed, makes \<open>run\<close> return the error result, whose message names the
  side and ends with the parser's message; no success result (markup, statistics, plain
  text, hunks) is produced.
\<close>

theorem run_json_error:
  "jsonMode opts \<Longrightarrow>
   (parse leftText = Inl msg \<longrightarrow>
      run parse stringify leftText rightText opts =
        Some (Failure (str ''Left pane: Invalid JSON '' @ [0x2014] @ str '' '' @ msg))) \<and>
   (parse leftText = Inr v \<and> parse rightText = Inl msg \<longrightarrow>
      run parse stringify leftText rightText opts =
        Some (Failure (str ''Right pane: Invalid JSON '' @ [0x2014] @ str '' '' @ msg)))"
  by (simp add: run_def normalizeJSON_def)

theorem run_json_error_witness:
  "jsonMode \<lparr>ignoreWhitespace = False, jsonMode = True, viewMode = None\<rparr> \<and>
   (\<lambda>t. if t = str ''{}'' then Inr () else Inl (str ''Unexpected token'')) (str ''{}'') = Inr () \<and>
   (\<lambda>t. if t = str ''{}'' then Inr () else Inl (str ''Unexpected token'')) (str ''{a'') = Inl (str ''Unexpected token'') \<and>
   run (\<lambda>t. if t = str ''{}'' then Inr () else Inl (str ''Unexpected token'')) (\<lambda>u. str ''{}'')
       (str ''{}'') (str ''{a'') \<lparr>ignoreWhitespace = False, jsonMode = True, viewMode = None\<rparr> =
     Some (Failure (str ''Right pane: Invalid JSON '' @ [0x2014] @ str '' Unexpected token''))"
proof -
  let ?p = "\<lambda>t. if t = str ''{}'' then Inr () else Inl (str ''Unexpected token'')"
  let ?o = "\<lparr>ignoreWhitespace = False, jsonMode = True, viewMode = None\<rparr>"
  have j: "jsonMode ?o" by simp
  have l: "?p (str ''{}'') = Inr ()" by simp
  have r: "?p (str ''{a'') = Inl (str ''Unexpected token'')" by (simp add: str_def)
  from run_json_error [OF j, of ?p "str ''{}''" "str ''Unexpected token''" "\<lambda>u. str ''{}''" "str ''{a''" "()"] l r j
  show ?thesis by (simp add: str_def)
qed

section \<open>Claims about empty inputs and the consolidator\<close>

text \<open>
  Claim C4. The short-circuit to no hunks is that of \<open>myersDiff\<close> on two empty line
  sequences. \<open>run\<close> does not reach it: \<open>splitLines\<close> turns an empty text into one empty
  line, so that on two empty texts, outside structured mode, \<open>run\<close> succeeds with the single
  equal hunk that pairs the two empty lines, with zero statistics and the "no differences"
  markup.
\<close>

theorem empty_inputs:
  "\<not> jsonMode opts \<Longrightarrow>
   myersDiff [] [] iw = [] \<and>
   splitLines [] = [[]] \<and>
   run parse stringify [] [] opts =
     Some (Success \<lparr>html = no_differences, stats = \<lparr>added = 0, removed = 0, changed = 0\<rparr>,
        plainText = str ''  '' @ nl,
        hunks = [\<lparr>htype = HEqual, lLines = [Some []], rLines = [Some []], lStart = 0, rStart = 0\<rparr>]\<rparr>)"
  by (simp add: run_empty_texts myersDiff_def splitLines_def)

theorem empty_inputs_witness:
  "\<not> jsonMode \<lparr>ignoreWhitespace = True, jsonMode = False, viewMode = Some (str ''sidebyside'')\<rparr> \<and>
   myersDiff [] [] True = [] \<and>
   run (\<lambda>t. Inl []) (\<lambda>u::unit. []) [] []
       \<lparr>ignoreWhitespace = True, jsonMode = False, viewMode = Some (str ''sidebyside'')\<rparr> =
     Some (Success \<lparr>html = no_differences, stats = \<lparr>added = 0, removed = 0, changed = 0\<rparr>,
        plainText = str ''  '' @ nl,
        hunks = [\<lparr>htype = HEqual, lLines = [Some []], rLines = [Some []], lStart = 0, rStart = 0\<rparr>]\<rparr>)"
proof -
  let ?o = "\<lparr>ignoreWhitespace = True, jsonMode = False, viewMode = Some (str ''sidebyside'')\<rparr>"
  have h: "\<not> jsonMode ?o" by simp
  from empty_inputs [OF h, of True "\<lambda>t. Inl []" "\<lambda>u::unit. []"] h show ?thesis by simp
qed

text \<open>
  On two empty texts the \<open>hunks\<close> of the result of \<open>run\<close> are therefore not the empty
  sequence.
\<close>

theorem run_empty_texts_counterexample:
  "result_hunks (run (\<lambda>t. Inl []) (\<lambda>u::unit. []) [] []
      \<lparr>ignoreWhitespace = False, jsonMode = False, viewMode = None\<rparr>) =
     Some [\<lparr>htype = HEqual, lLines = [Some []], rLines = [Some []], lStart = 0, rStart = 0\<rparr>] \<and>
   result_hunks (run (\<lambda>t. Inl []) (\<lambda>u::unit. []) [] []
      \<lparr>ignoreWhitespace = False, jsonMode = False, viewMode = None\<rparr>) \<noteq> Some []"
  by (simp add: run_empty_texts result_hunks_def)

text \<open>
  Claim C3. A maximal run \<open>ds\<close> of deletes followed by the maximal run \<open>ins\<close> of inserts,
  anywhere in the edit list, becomes \<open>min (length ds) (length ins)\<close> changed hunks pairing
  the two runs index for index, then a removed hunk for every surplus delete, then an
  added hunk for every surplus insert. On each side the hunks carry the lines of the edits
  in the order of the edit list.
\<close>

theorem consolidate_pairs_runs:
  assumes "ds \<noteq> []" and "\<forall>d\<in>set ds. is_del d" and "\<forall>i\<in>set ins. is_ins i"
    and "pre = [] \<or> \<not> is_del (last pre)"
    and "rest = [] \<or> \<not> is_ins (hd rest)"
    and "ins = [] \<longrightarrow> rest = [] \<or> \<not> is_del (hd rest)"
  shows "consolidate left right (pre @ ds @ ins @ rest) =
           consolidate left right pre @
           (map (\<lambda>j. changed_hunk left right (ds ! j) (ins ! j)) [0 ..< min (length ds) (length ins)] @
            map (removed_hunk left) (drop (min (length ds) (length ins)) ds) @
            map (added_hunk right) (drop (min (length ds) (length ins)) ins)) @
           consolidate left right rest \<and>
         left_side (consolidate left right es) =
           map (\<lambda>e. (li e, [lookup left (li e)])) (filter (\<lambda>e. \<not> is_ins e) es) \<and>
         right_side (consolidate left right es) =
           map (\<lambda>e. (ri e, [lookup right (ri e)])) (filter (\<lambda>e. \<not> is_del e) es)"
proof -
  have "ds @ ins @ rest = [] \<or> is_del (hd (ds @ ins @ rest))"
    using assms(1,2) by (cases ds) auto
  from consolidate_append [OF assms(4) this]
  have "consolidate left right (pre @ ds @ ins @ rest) =
      consolidate left right pre @ consolidate left right (ds @ ins @ rest)" .
  also have "consolidate left right (ds @ ins @ rest) =
      paired_hunks left right ds ins @ consolidate left right rest"
    using assms(1,2,3,5,6) by (rule consolidate_block)
  finally show ?thesis
    by (simp add: paired_hunks_def Let_def left_side_consolidate right_side_consolidate)
qed

theorem consolidate_pairs_runs_witness:
  "consolidate [str ''a'', str ''b'', str ''c'', str ''d''] [str ''a'', str ''x'', str ''d'']
     ([\<lparr>etype = TEqual, li = 0, ri = 0\<rparr>] @
      [\<lparr>etype = TDelete, li = 1, ri = - 1\<rparr>, \<lparr>etype = TDelete, li = 2, ri = - 1\<rparr>] @
      [\<lparr>etype = TInsert, li = - 1, ri = 1\<rparr>] @
      [\<lparr>etype = TEqual, li = 3, ri = 2\<rparr>]) =
   [\<lparr>htype = HEqual, lLines = [Some (str ''a'')], rLines = [Some (str ''a'')], lStart = 0, rStart = 0\<rparr>,
    \<lparr>htype = HChanged, lLines = [Some (str ''b'')], rLines = [Some (str ''x'')], lStart = 1, rStart = 1\<rparr>,
    \<lparr>htype = HRemoved, lLines = [Some (str ''c'')], rLines = [Some []], lStart = 2, rStart = - 1\<rparr>,
    \<lparr>htype = HEqual, lLines = [Some (str ''d'')], rLines = [Some (str ''d'')], lStart = 3, rStart = 2\<rparr>]"
proof -
  let ?l = "[str ''a'', str ''b'', str ''c'', str ''d'']" and ?r = "[str ''a'', str ''x'', str ''d'']"
  let ?pre = "[\<lparr>etype = TEqual, li = 0, ri = 0\<rparr>]"
  let ?ds = "[\<lparr>etype = TDelete, li = 1, ri = - 1\<rparr>, \<lparr>etype = TDelete, li = 2, ri = - 1\<rparr>]"
  let ?ins = "[\<lparr>etype = TInsert, li = - 1, ri = 1\<rparr>]"
  let ?rest = "[\<lparr>etype = TEqual, li = 3, ri = 2\<rparr>]"
  have h: "?ds \<noteq> []" "\<forall>d\<in>set ?ds. is_del d" "\<forall>i\<in>set ?ins. is_ins i"
    "?pre = [] \<or> \<not> is_del (last ?pre)" "?rest = [] \<or> \<not> is_ins (hd ?rest)"
    "?ins = [] \<longrightarrow> ?rest = [] \<or> \<not> is_del (hd ?rest)"
    by (simp_all add: is_del_def is_ins_def)
  from consolidate_pairs_runs [OF h, of ?l ?r "[]"] show ?thesis
    by (simp add: equal_hunk_def changed_hunk_def removed_hunk_def added_hunk_def lookup_def)
qed

section \<open>Claims about the line-level diff\<close>

text \<open>
  Claim C1. The edits that the search and the backtracking of \<open>myersDiff\<close> produce for two
  line sequences, not both empty, are a valid edit script from the first to the second;
  the number of its deletes and inserts is the edit distance \<open>edist\<close> of the two sequences,
  and no valid edit script has fewer. On two empty sequences \<open>myersDiff\<close> returns before
  the search, with no edit at all, and the edit distance is zero.
\<close>

theorem myers_edit_count_minimal:
  "(a \<noteq> [] \<or> b \<noteq> [] \<longrightarrow>
      count_noneq (myers_edits a b) = edist a b \<and>
      is_path a b 0 0 (myers_edits a b) \<and>
      (\<forall>es. is_path a b 0 0 es \<longrightarrow> count_noneq (myers_edits a b) \<le> count_noneq es)) \<and>
   myersDiff [] [] iw = [] \<and> edist ([] :: 'a list) [] = 0"
proof (intro conjI impI allI)
  assume ne: "a \<noteq> [] \<or> b \<noteq> []"
  from myers_edits_correct [OF ne]
  show c: "count_noneq (myers_edits a b) = edist a b" and "is_path a b 0 0 (myers_edits a b)"
    by simp_all
  fix es assume "is_path a b 0 0 es"
  from is_path_edist [OF this] show "count_noneq (myers_edits a b) \<le> count_noneq es"
    unfolding c by simp
next
  show "myersDiff [] [] iw = []" by (simp add: myersDiff_def)
  show "edist ([] :: 'a list) [] = 0" by simp
qed

theorem myers_edit_count_minimal_witness:
  "[1, 2, 3 :: nat] \<noteq> [] \<and>
   count_noneq (myers_edits [1, 2, 3 :: nat] [1, 9, 3]) = 2 \<and>
   edist [1, 2, 3 :: nat] [1, 9, 3] = 2"
proof -
  have h: "[1, 2, 3 :: nat] \<noteq> [] \<or> [1, 9, 3 :: nat] \<noteq> []" by simp
  have e: "edist [1, 2, 3 :: nat] [1, 9, 3] = 2" by simp
  from myers_edit_count_minimal [of "[1, 2, 3 :: nat]" "[1, 9, 3]" False] h e
  show ?thesis by simp
qed

text \<open>
  Claim C2. For all line sequences and either value of \<open>ignoreWhitespace\<close>, the hunks of
  \<open>myersDiff\<close> cover both inputs: the \<open>lLines\<close> of the hunks with a left side (all but the
  added ones), concatenated in order, are the left lines, and their \<open>lStart\<close> are
  \<open>0, 1, ..., length left - 1\<close> in order, so that every left index stands in exactly one
  hunk; the same holds on the right for the hunks that are not removed.
\<close>

theorem hunks_cover_inputs:
  "concat (map lLines (filter (\<lambda>h. htype h \<noteq> HAdded) (myersDiff left right iw))) = map Some left \<and>
   map lStart (filter (\<lambda>h. htype h \<noteq> HAdded) (myersDiff left right iw)) = map int [0 ..< length left] \<and>
   concat (map rLines (filter (\<lambda>h. htype h \<noteq> HRemoved) (myersDiff left right iw))) = map Some right \<and>
   map rStart (filter (\<lambda>h. htype h \<noteq> HRemoved) (myersDiff left right iw)) = map int [0 ..< length right]"
proof -
  let ?hs = "myersDiff left right iw"
  have l: "left_side ?hs = map (\<lambda>i. (int i, [Some (left ! i)])) [0 ..< length left]"
    and r: "right_side ?hs = map (\<lambda>i. (int i, [Some (right ! i)])) [0 ..< length right]"
    using myersDiff_sides [of left right iw] by simp_all
  have "map lStart (filter (\<lambda>h. htype h \<noteq> HAdded) ?hs) = map fst (left_side ?hs)"
    "map lLines (filter (\<lambda>h. htype h \<noteq> HAdded) ?hs) = map snd (left_side ?hs)"
    "map rStart (filter (\<lambda>h. htype h \<noteq> HRemoved) ?hs) = map fst (right_side ?hs)"
    "map rLines (filter (\<lambda>h. htype h \<noteq> HRemoved) ?hs) = map snd (right_side ?hs)"
    by (simp_all add: left_side_def right_side_def comp_def)
  moreover have "concat (map (\<lambda>i. [Some (xs ! i)]) [0 ..< length xs]) = map Some xs" for xs :: "jstring list"
  proof -
    have "concat (map (\<lambda>i. [Some (xs ! i)]) [0 ..< length xs]) = map Some (map ((!) xs) [0 ..< length xs])"
      by (simp add: comp_def)
    then show ?thesis by (simp only: map_nth)
  qed
  ultimately show ?thesis unfolding l r by (simp add: comp_def)
qed

theorem hunks_cover_inputs_witness:
  "map lStart (filter (\<lambda>h. htype h \<noteq> HAdded)
      (myersDiff [str ''a'', str ''  b''] [str ''b'', str ''c'', str ''d''] True)) = [0, 1] \<and>
   map rStart (filter (\<lambda>h. htype h \<noteq> HRemoved)
      (myersDiff [str ''a'', str ''  b''] [str ''b'', str ''c'', str ''d''] True)) = [0, 1, 2]"
  using hunks_cover_inputs [of "[str ''a'', str ''  b'']" "[str ''b'', str ''c'', str ''d'']" True]
  by (simp add: upt_rec)

text \<open>
  Claim C9. Every hunk of \<open>myersDiff\<close> satisfies the side-presence invariant: an equal or a
  changed hunk has both sides present, each with a valid index and the line at that index;
  a removed hunk has its left side present and its right side absent (index \<open>-1\<close>, the
  empty line as placeholder); an added hunk has its left side absent and its right side
  present.
\<close>

theorem hunks_side_presence:
  "list_all (side_ok left right) (myersDiff left right iw)"
  unfolding list_all_iff using myersDiff_side_ok by blast

theorem hunks_side_presence_witness:
  "list_all (side_ok [str ''a'', str ''b''] [str ''b'', str ''c''])
     (myersDiff [str ''a'', str ''b''] [str ''b'', str ''c''] False) \<and>
   side_ok [str ''a'', str ''b''] [str ''b'', str ''c'']
     \<lparr>htype = HRemoved, lLines = [Some (str ''a'')], rLines = [Some []], lStart = 0, rStart = - 1\<rparr>"
  using hunks_side_presence [of "[str ''a'', str ''b'']" "[str ''b'', str ''c'']" False]
  by (simp add: side_ok_def left_present_def right_absent_def)

end
